theory Spec2Isabelle
  imports Main "HOL-Library.Word"
begin

unbundle bit_operations_syntax

section \<open>Machine types\<close>

text \<open>
  Go's \<open>uint\<close> and \<open>uintptr\<close> are 64 bits wide on the platforms the framework runs on
  (DPDK, amd64); \<open>uint64\<close>, \<open>uint32\<close>, \<open>uint16\<close> and \<open>uint8\<close> have their widths.
  Arithmetic on them wraps around, as the word types do.
\<close>

type_synonym uint = "64 word"
type_synonym uintptr = "64 word"
type_synonym uint64 = "64 word"
type_synonym uint32 = "32 word"
type_synonym uint16 = "16 word"
type_synonym uint8 = "8 word"

section \<open>Package packet: byte swaps\<close>

text \<open>\<^verbatim>\<open>return x<<8 | x>>8\<close>\<close>

definition SwapBytesUint16 :: "uint16 \<Rightarrow> uint16" where
  "SwapBytesUint16 x = push_bit 8 x OR drop_bit 8 x"

text \<open>\<^verbatim>\<open>return ((x & 0x000000ff) << 24) | ((x & 0x0000ff00) << 8) | ((x & 0x00ff0000) >> 8) | ((x & 0xff000000) >> 24)\<close>\<close>

definition SwapBytesUint32 :: "uint32 \<Rightarrow> uint32" where
  "SwapBytesUint32 x =
     push_bit 24 (x AND 0x000000ff) OR push_bit 8 (x AND 0x0000ff00)
       OR drop_bit 8 (x AND 0x00ff0000) OR drop_bit 24 (x AND 0xff000000)"

section \<open>Package flow: configuration and system initialisation\<close>

text \<open>A \<open>*low.Queue\<close>: \<open>None\<close> is \<open>nil\<close>, \<open>Some r\<close> points to the ring created under name \<open>r\<close>.\<close>

type_synonym queue_ptr = "nat option"

datatype port_config = inactivePort | autoPort | manualPort

record port =
  rxQueues :: "bool list"
  txQueues :: "bool list"
  config :: port_config
  rxQueuesNumber :: uint16
  txQueuesNumber :: uint16
  port_id :: uint8

record Config =
  CPUCoresNumber :: uint
  DisableScheduler :: bool
  PersistentClones :: bool
  StopOnDedicatedCore :: bool
  HWTXChecksum :: bool
  MbufNumber :: uint
  MbufCacheSize :: uint
  RingSize :: uint
  ScaleTime :: uint
  BurstSize :: uint
  CheckTime :: uint
  DebugTime :: uint
  LogType :: nat
  DPDKArgs :: "string list"

text \<open>
  The values \<open>SystemInit\<close> derives from the configuration: a zero field of \<open>Config\<close>
  selects the default.
\<close>

definition init_sizeMultiplier :: "Config \<Rightarrow> uint" where
  "init_sizeMultiplier args = (if RingSize args \<noteq> 0 then RingSize args else 256)"

definition init_schedTime :: "Config \<Rightarrow> uint" where
  "init_schedTime args = (if ScaleTime args \<noteq> 0 then ScaleTime args else 1500)"

definition init_burstSize :: "Config \<Rightarrow> uint" where
  "init_burstSize args = (if BurstSize args \<noteq> 0 then BurstSize args else 32)"

text \<open>\<^verbatim>\<open>maxPacketsToClone = uint32(sizeMultiplier * burstSize / 5 * 4)\<close>\<close>

definition init_maxPacketsToClone :: "Config \<Rightarrow> uint32" where
  "init_maxPacketsToClone args =
     ucast (init_sizeMultiplier args * init_burstSize args div 5 * 4)"

section \<open>Package flow: stage descriptors and the global state\<close>

text \<open>
  Modelled from the spec: \<open>common.LogError\<close> reports a construction error, which
  terminates startup; \<open>common.LogWarning\<close> logs a non-fatal configuration warning and
  execution continues. Package \<open>common\<close> is not part of the sources at hand.
\<close>

datatype error = LogError string | Panic string

text \<open>
  The dynamic type of a user function passed as \<open>interface{}\<close>; the type switches of
  the builder look at nothing else. The argument identifies the function.
\<close>

datatype user_function =
    PacketFn nat        \<comment> \<open>\<^verbatim>\<open>func(*packet.Packet, UserContext)\<close>\<close>
  | VectorFn nat        \<comment> \<open>\<^verbatim>\<open>func([]*packet.Packet, uint, UserContext)\<close>\<close>
  | PacketBoolFn nat    \<comment> \<open>\<^verbatim>\<open>func(*packet.Packet, UserContext) bool\<close>\<close>
  | VectorBoolFn nat    \<comment> \<open>\<^verbatim>\<open>func([]*packet.Packet, []bool, uint, UserContext)\<close>\<close>
  | OtherFn             \<comment> \<open>any other dynamic type\<close>

text \<open>
  The parameter structs, one constructor per struct, fields in the order of the source.
  A function field is \<open>None\<close> when it is \<open>nil\<close>.
\<close>

datatype Parameters =
    receiveParameters queue_ptr uint16 uint8
      \<comment> \<open>out, queue, port\<close>
  | generateParameters queue_ptr uint64 "nat option" "nat option" nat
      \<comment> \<open>out, targetSpeed, generateFunction, vectorGenerateFunction, mempool\<close>
  | sendParameters queue_ptr uint16 uint8
      \<comment> \<open>in, queue, port\<close>
  | partitionParameters queue_ptr queue_ptr queue_ptr uint64 uint64
      \<comment> \<open>in, outFirst, outSecond, N, M\<close>
  | separateParameters queue_ptr queue_ptr queue_ptr "nat option" "nat option"
      \<comment> \<open>in, outTrue, outFalse, separateFunction, vectorSeparateFunction\<close>
  | splitParameters queue_ptr "queue_ptr list" "nat option" nat
      \<comment> \<open>in, outs, splitFunction, flowNumber\<close>
  | handleParameters queue_ptr queue_ptr "nat option" "nat option"
      \<comment> \<open>in, out, handleFunction, vectorHandleFunction\<close>
  | writeParameters queue_ptr string
      \<comment> \<open>in, filename\<close>
  | readParameters queue_ptr string nat "32 word"
      \<comment> \<open>out, filename, mempool, repcount\<close>

datatype stage_body =
    receive_body | generateOne_body | generatePerf_body | send_body | partition_body
  | separate_body | split_body | handle_body | write_body | read_body

datatype check_body = generateCheck_body | separateCheck_body | splitCheck_body | handleCheck_body

text \<open>
  Modelled from the spec: the stage descriptor of package \<open>scheduler\<close> (not part of the
  sources at hand), a record carrying name, numeric id, the stage function, its parameters
  and, for a clonable stage, the should-clone predicate and the user context; and the
  scheduler, of which package \<open>flow\<close> uses the two stage lists, the stop ring and the
  dropped counter.
\<close>

record FlowFunction =
  ffName :: string
  ffIdentifier :: nat
  ffBody :: stage_body
  ffParameters :: Parameters
  ffCheck :: "check_body option"
  ffContext :: "nat option"

definition NewUnclonableFlowFunction ::
  "string \<Rightarrow> nat \<Rightarrow> stage_body \<Rightarrow> Parameters \<Rightarrow> FlowFunction" where
  "NewUnclonableFlowFunction name ident body par =
     \<lparr>ffName = name, ffIdentifier = ident, ffBody = body, ffParameters = par,
      ffCheck = None, ffContext = None\<rparr>"

definition NewClonableFlowFunction ::
  "string \<Rightarrow> nat \<Rightarrow> stage_body \<Rightarrow> Parameters \<Rightarrow> check_body \<Rightarrow> nat option \<Rightarrow> FlowFunction" where
  "NewClonableFlowFunction name ident body par chk ctx =
     \<lparr>ffName = name, ffIdentifier = ident, ffBody = body, ffParameters = par,
      ffCheck = Some chk, ffContext = ctx\<rparr>"

record Scheduler =
  Clonable :: "FlowFunction list"
  UnClonable :: "FlowFunction list"
  StopRing :: queue_ptr
  Dropped :: uint
  schedCores :: uint
  schedulerOff :: bool
  schedulerOffRemove :: bool
  stopDedicatedCore :: bool
  schedCheckTime :: uint
  schedDebugTime :: uint

text \<open>
  The package-level variables of package \<open>flow\<close>. Three fields belong to the model of the
  environment: \<open>flows\<close> is the heap of \<open>Flow\<close> objects allocated by \<open>new(Flow)\<close> (a
  \<open>*Flow\<close> is an index into it, the entry is the field \<open>current\<close>), \<open>mempools\<close> counts
  the pools created by \<open>low.CreateMempool\<close>, and \<open>warnings\<close> is the log written by
  \<open>common.LogWarning\<close>. \<open>ringName\<close> and \<open>ffCount\<close> are Go \<open>int\<close>s that only count up
  from 1 and 0.
\<close>

record flow_globals =
  openFlowsNumber :: uint32
  ringName :: nat
  ffCount :: nat
  createdPorts :: "port list"
  burstSize :: uint
  sizeMultiplier :: uint
  schedTime :: uint
  maxPacketsToClone :: uint32
  hwtxchecksum :: bool
  schedState :: Scheduler
  flows :: "queue_ptr list"
  mempools :: nat
  warnings :: "string list"

definition package_init :: flow_globals where
  "package_init =
     \<lparr>openFlowsNumber = 0, ringName = 1, ffCount = 0, createdPorts = [],
      burstSize = 0, sizeMultiplier = 0, schedTime = 0, maxPacketsToClone = 0,
      hwtxchecksum = False,
      schedState = \<lparr>Clonable = [], UnClonable = [], StopRing = None, Dropped = 0,
        schedCores = 0, schedulerOff = False, schedulerOffRemove = False,
        stopDedicatedCore = False, schedCheckTime = 0, schedDebugTime = 0\<rparr>,
      flows = [], mempools = 0, warnings = []\<rparr>"

text \<open>\<^verbatim>\<open>s := strconv.Itoa(ringName); ringName++; return s\<close>: the name is kept as the number.\<close>

definition generateRingName :: "flow_globals \<Rightarrow> nat \<times> flow_globals" where
  "generateRingName g = (ringName g, g\<lparr>ringName := ringName g + 1\<rparr>)"

text \<open>
  Modelled from the spec: \<open>low.CreateQueue(name, size)\<close> creates a new ring of fixed
  capacity once, during graph construction; the pointer it returns is identified with the
  ring's unique name.
\<close>

definition CreateQueue :: "nat \<Rightarrow> uint \<Rightarrow> queue_ptr" where
  "CreateQueue name sz = Some name"

definition new_port :: "nat \<Rightarrow> port" where
  "new_port i = \<lparr>rxQueues = [], txQueues = [], config = inactivePort,
     rxQueuesNumber = 0, txQueuesNumber = 0, port_id = of_nat i\<rparr>"

text \<open>
  \<open>SystemInit\<close>; \<open>gomaxprocs\<close> is \<open>runtime.GOMAXPROCS(0)\<close> and \<open>portsNumber\<close> is
  \<open>low.GetPortsNumber()\<close>. The DPDK initialisation has no effect on the variables of the
  package.
\<close>

definition SystemInit :: "uint \<Rightarrow> nat \<Rightarrow> Config \<Rightarrow> flow_globals \<Rightarrow> flow_globals" where
  "SystemInit gomaxprocs portsNumber args g0 =
     (let cpuCoresNumber = (if CPUCoresNumber args \<noteq> 0 then CPUCoresNumber args else gomaxprocs);
          checkTime = (if CheckTime args \<noteq> 0 then CheckTime args else 10000);
          debugTime = (if DebugTime args \<noteq> 0 then DebugTime args else 1000);
          g1 = g0\<lparr>hwtxchecksum := HWTXChecksum args,
                  sizeMultiplier := init_sizeMultiplier args,
                  schedTime := init_schedTime args,
                  burstSize := init_burstSize args,
                  maxPacketsToClone := init_maxPacketsToClone args,
                  createdPorts := map new_port [0..<portsNumber]\<rparr>;
          (name, g2) = generateRingName g1;
          stopRing = CreateQueue name (burstSize g2 * sizeMultiplier g2)
      in g2\<lparr>schedState :=
            \<lparr>Clonable = [], UnClonable = [], StopRing = stopRing, Dropped = 0,
             schedCores = cpuCoresNumber, schedulerOff = DisableScheduler args,
             schedulerOffRemove = PersistentClones args,
             stopDedicatedCore = StopOnDedicatedCore args,
             schedCheckTime = checkTime, schedDebugTime = debugTime\<rparr>\<rparr>)"

section \<open>Package flow: the graph builder\<close>

definition LogWarning :: "string \<Rightarrow> flow_globals \<Rightarrow> flow_globals" where
  "LogWarning msg g = g\<lparr>warnings := warnings g @ [msg]\<rparr>"

text \<open>
  \<open>f.current\<close> for a \<open>*Flow\<close>. A \<open>Flow\<close> that no builder call allocated has the zero
  value, its \<open>current\<close> is \<open>nil\<close>.
\<close>

definition flow_current :: "flow_globals \<Rightarrow> nat \<Rightarrow> queue_ptr" where
  "flow_current g f = (if f < length (flows g) then flows g ! f else None)"

definition set_current :: "nat \<Rightarrow> queue_ptr \<Rightarrow> flow_globals \<Rightarrow> flow_globals" where
  "set_current f q g = g\<lparr>flows := (flows g)[f := q]\<rparr>"

text \<open>\<^verbatim>\<open>new(Flow)\<close>\<close>

definition new_Flow :: "flow_globals \<Rightarrow> nat \<times> flow_globals" where
  "new_Flow g = (length (flows g), g\<lparr>flows := flows g @ [None]\<rparr>)"

text \<open>Modelled from the spec: \<open>low.CreateMempool\<close> creates one more pool of packet buffers.\<close>

definition CreateMempool :: "flow_globals \<Rightarrow> nat \<times> flow_globals" where
  "CreateMempool g = (mempools g, g\<lparr>mempools := mempools g + 1\<rparr>)"

definition checkFlow :: "flow_globals \<Rightarrow> nat \<Rightarrow> error + unit" where
  "checkFlow g f =
     (if flow_current g f = None
      then Inl (LogError ''One of the flows is used after it was closed!'')
      else Inr ())"

definition append_UnClonable :: "FlowFunction \<Rightarrow> flow_globals \<Rightarrow> flow_globals" where
  "append_UnClonable ff g =
     g\<lparr>schedState := (schedState g)\<lparr>UnClonable := UnClonable (schedState g) @ [ff]\<rparr>\<rparr>"

definition append_Clonable :: "FlowFunction \<Rightarrow> flow_globals \<Rightarrow> flow_globals" where
  "append_Clonable ff g =
     g\<lparr>schedState := (schedState g)\<lparr>Clonable := Clonable (schedState g) @ [ff]\<rparr>\<rparr>"

definition count_ff :: "flow_globals \<Rightarrow> flow_globals" where
  "count_ff g = g\<lparr>ffCount := ffCount g + 1\<rparr>"

definition makeReceiver ::
  "uint8 \<Rightarrow> uint16 \<Rightarrow> queue_ptr \<Rightarrow> flow_globals \<Rightarrow> FlowFunction \<times> flow_globals" where
  "makeReceiver port queue out g =
     (let par = receiveParameters out queue port; g1 = count_ff g
      in (NewUnclonableFlowFunction ''receiver'' (ffCount g1) receive_body par, g1))"

definition makeGeneratorOne ::
  "queue_ptr \<Rightarrow> nat \<Rightarrow> flow_globals \<Rightarrow> FlowFunction \<times> flow_globals" where
  "makeGeneratorOne out generateFunction g =
     (let (mempool, g1) = CreateMempool g;
          par = generateParameters out 0 (Some generateFunction) None mempool;
          g2 = count_ff g1
      in (NewUnclonableFlowFunction ''generator'' (ffCount g2) generateOne_body par, g2))"

definition makeGeneratorPerf ::
  "queue_ptr \<Rightarrow> nat option \<Rightarrow> nat option \<Rightarrow> uint64 \<Rightarrow> nat option \<Rightarrow> flow_globals
     \<Rightarrow> FlowFunction \<times> flow_globals" where
  "makeGeneratorPerf out generateFunction vectorGenerateFunction targetSpeed ctx g =
     (let (mempool, g1) = CreateMempool g;
          par = generateParameters out targetSpeed generateFunction vectorGenerateFunction mempool;
          g2 = count_ff g1
      in (NewClonableFlowFunction ''fast generator'' (ffCount g2) generatePerf_body par
            generateCheck_body ctx, g2))"

definition makeSender ::
  "uint8 \<Rightarrow> uint16 \<Rightarrow> queue_ptr \<Rightarrow> flow_globals \<Rightarrow> FlowFunction \<times> flow_globals" where
  "makeSender port queue inq g =
     (let par = sendParameters inq queue port; g1 = count_ff g
      in (NewUnclonableFlowFunction ''sender'' (ffCount g1) send_body par, g1))"

definition makePartitioner ::
  "queue_ptr \<Rightarrow> queue_ptr \<Rightarrow> queue_ptr \<Rightarrow> uint64 \<Rightarrow> uint64 \<Rightarrow> flow_globals
     \<Rightarrow> FlowFunction \<times> flow_globals" where
  "makePartitioner inq outFirst outSecond N M g =
     (let par = partitionParameters inq outFirst outSecond N M; g1 = count_ff g
      in (NewUnclonableFlowFunction ''partitioner'' (ffCount g1) partition_body par, g1))"

definition makeSeparator ::
  "queue_ptr \<Rightarrow> queue_ptr \<Rightarrow> queue_ptr \<Rightarrow> nat option \<Rightarrow> nat option \<Rightarrow> string \<Rightarrow> nat option
     \<Rightarrow> flow_globals \<Rightarrow> FlowFunction \<times> flow_globals" where
  "makeSeparator inq outTrue outFalse separateFunction vectorSeparateFunction name ctx g =
     (let par = separateParameters inq outTrue outFalse separateFunction vectorSeparateFunction;
          g1 = count_ff g
      in (NewClonableFlowFunction name (ffCount g1) separate_body par separateCheck_body ctx, g1))"

definition makeSplitter ::
  "queue_ptr \<Rightarrow> queue_ptr list \<Rightarrow> nat option \<Rightarrow> nat \<Rightarrow> nat option \<Rightarrow> flow_globals
     \<Rightarrow> FlowFunction \<times> flow_globals" where
  "makeSplitter inq outs splitFunction flowNumber ctx g =
     (let par = splitParameters inq outs splitFunction flowNumber; g1 = count_ff g
      in (NewClonableFlowFunction ''splitter'' (ffCount g1) split_body par splitCheck_body ctx, g1))"

definition makeHandler ::
  "queue_ptr \<Rightarrow> queue_ptr \<Rightarrow> nat option \<Rightarrow> nat option \<Rightarrow> string \<Rightarrow> nat option
     \<Rightarrow> flow_globals \<Rightarrow> FlowFunction \<times> flow_globals" where
  "makeHandler inq out handleFunction vectorHandleFunction name ctx g =
     (let par = handleParameters inq out handleFunction vectorHandleFunction; g1 = count_ff g
      in (NewClonableFlowFunction name (ffCount g1) handle_body par handleCheck_body ctx, g1))"

definition makeWriter :: "string \<Rightarrow> queue_ptr \<Rightarrow> flow_globals \<Rightarrow> FlowFunction \<times> flow_globals" where
  "makeWriter filename inq g =
     (let par = writeParameters inq filename; g1 = count_ff g
      in (NewUnclonableFlowFunction ''writer'' (ffCount g1) write_body par, g1))"

definition makeReader ::
  "string \<Rightarrow> queue_ptr \<Rightarrow> 32 word \<Rightarrow> flow_globals \<Rightarrow> FlowFunction \<times> flow_globals" where
  "makeReader filename out repcount g =
     (let (mempool, g1) = CreateMempool g;
          par = readParameters out filename mempool repcount;
          g2 = count_ff g1
      in (NewUnclonableFlowFunction ''reader'' (ffCount g2) read_body par, g2))"

subsection \<open>Merge: rewriting the output rings of the stages added before\<close>

text \<open>
  The \<open>switch\<close> over the unclonable stages has the cases \<open>*receiveParameters\<close>,
  \<open>*partitionParameters\<close> and \<open>*generateParameters\<close>; the one over the clonable stages
  has \<open>*splitParameters\<close>, \<open>*separateParameters\<close>, \<open>*handleParameters\<close> and
  \<open>*generateParameters\<close>. Any other parameter struct is left as it is.
\<close>

definition merge_UnClonable :: "queue_ptr \<Rightarrow> queue_ptr \<Rightarrow> Parameters \<Rightarrow> Parameters" where
  "merge_UnClonable from_q to_q par =
     (case par of
        receiveParameters out queue port \<Rightarrow>
          receiveParameters (if out = from_q then to_q else out) queue port
      | partitionParameters inq outFirst outSecond N M \<Rightarrow>
          partitionParameters inq (if outFirst = from_q then to_q else outFirst)
            (if outSecond = from_q then to_q else outSecond) N M
      | generateParameters out targetSpeed gf vgf mempool \<Rightarrow>
          generateParameters (if out = from_q then to_q else out) targetSpeed gf vgf mempool
      | _ \<Rightarrow> par)"

text \<open>
  \<^verbatim>\<open>for j := uint(0); j < flowNumber; j++ { if outs[j] == from { outs[j] = to } }\<close>;
  \<open>makeSplitter\<close> is only called with \<open>flowNumber = len(outs)\<close>, so the indices are in range.
\<close>

definition merge_outs :: "queue_ptr \<Rightarrow> queue_ptr \<Rightarrow> nat \<Rightarrow> queue_ptr list \<Rightarrow> queue_ptr list" where
  "merge_outs from_q to_q flowNumber outs =
     fold (\<lambda>j os. if os ! j = from_q then os[j := to_q] else os) [0..<flowNumber] outs"

definition merge_Clonable :: "queue_ptr \<Rightarrow> queue_ptr \<Rightarrow> Parameters \<Rightarrow> Parameters" where
  "merge_Clonable from_q to_q par =
     (case par of
        splitParameters inq outs splitFunction flowNumber \<Rightarrow>
          splitParameters inq (merge_outs from_q to_q flowNumber outs) splitFunction flowNumber
      | separateParameters inq outTrue outFalse sf vsf \<Rightarrow>
          separateParameters inq (if outTrue = from_q then to_q else outTrue)
            (if outFalse = from_q then to_q else outFalse) sf vsf
      | handleParameters inq out hf vhf \<Rightarrow>
          handleParameters inq (if out = from_q then to_q else out) hf vhf
      | generateParameters out targetSpeed gf vgf mempool \<Rightarrow>
          generateParameters (if out = from_q then to_q else out) targetSpeed gf vgf mempool
      | _ \<Rightarrow> par)"

definition merge :: "queue_ptr \<Rightarrow> queue_ptr \<Rightarrow> flow_globals \<Rightarrow> flow_globals" where
  "merge from_q to_q g =
     g\<lparr>schedState := (schedState g)
        \<lparr>UnClonable :=
           map (\<lambda>ff. ff\<lparr>ffParameters := merge_UnClonable from_q to_q (ffParameters ff)\<rparr>)
             (UnClonable (schedState g)),
         Clonable :=
           map (\<lambda>ff. ff\<lparr>ffParameters := merge_Clonable from_q to_q (ffParameters ff)\<rparr>)
             (Clonable (schedState g))\<rparr>\<rparr>"

subsection \<open>The Set functions\<close>

definition new_ring :: "flow_globals \<Rightarrow> queue_ptr \<times> flow_globals" where
  \<comment> \<open>\<^verbatim>\<open>low.CreateQueue(generateRingName(), burstSize*sizeMultiplier)\<close>\<close>
  "new_ring g =
     (let (name, g1) = generateRingName g
      in (CreateQueue name (burstSize g1 * sizeMultiplier g1), g1))"

definition inc_openFlowsNumber :: "flow_globals \<Rightarrow> flow_globals" where
  "inc_openFlowsNumber g = g\<lparr>openFlowsNumber := openFlowsNumber g + 1\<rparr>"

definition dec_openFlowsNumber :: "flow_globals \<Rightarrow> flow_globals" where
  "dec_openFlowsNumber g = g\<lparr>openFlowsNumber := openFlowsNumber g - 1\<rparr>"

definition update_port :: "nat \<Rightarrow> (port \<Rightarrow> port) \<Rightarrow> flow_globals \<Rightarrow> flow_globals" where
  "update_port i f g = g\<lparr>createdPorts := (createdPorts g)[i := f (createdPorts g ! i)]\<rparr>"

definition SetWriter :: "nat \<Rightarrow> string \<Rightarrow> flow_globals \<Rightarrow> error + flow_globals" where
  "SetWriter IN filename g =
     (case checkFlow g IN of
        Inl e \<Rightarrow> Inl e
      | Inr _ \<Rightarrow>
          (let (write, g1) = makeWriter filename (flow_current g IN) g;
               g2 = append_UnClonable write g1;
               g3 = set_current IN None g2
           in Inr (dec_openFlowsNumber g3)))"

definition SetReader :: "string \<Rightarrow> 32 word \<Rightarrow> flow_globals \<Rightarrow> nat \<times> flow_globals" where
  "SetReader filename repcount g =
     (let (ring, g1) = new_ring g;
          (read, g2) = makeReader filename ring repcount g1;
          g3 = append_UnClonable read g2;
          (OUT, g4) = new_Flow g3;
          g5 = set_current OUT ring g4
      in (OUT, inc_openFlowsNumber g5))"

definition SetReceiver :: "uint8 \<Rightarrow> flow_globals \<Rightarrow> error + nat \<times> flow_globals" where
  "SetReceiver port g =
     (if port \<ge> of_nat (length (createdPorts g)) then
        Inl (LogError ''Requested receive port exceeds number of ports which can be used by DPDK (bind to DPDK).'')
      else if config (createdPorts g ! unat port) = manualPort then
        Inl (LogError ''Requested receive port was previously configured as manual port. It can't be used as auto port.'')
      else
        (let g1 = update_port (unat port) (\<lambda>p. p\<lparr>config := autoPort\<rparr>) g;
             g2 = update_port (unat port) (\<lambda>p. p\<lparr>rxQueues := rxQueues p @ [True]\<rparr>) g1;
             (ring, g3) = new_ring g2;
             (recv, g4) = makeReceiver port (rxQueuesNumber (createdPorts g3 ! unat port)) ring g3;
             g5 = append_UnClonable recv g4;
             (OUT, g6) = new_Flow g5;
             g7 = set_current OUT ring g6;
             g8 = inc_openFlowsNumber g7
         in Inr (OUT, update_port (unat port) (\<lambda>p. p\<lparr>rxQueuesNumber := rxQueuesNumber p + 1\<rparr>) g8)))"

definition SetGenerator ::
  "user_function \<Rightarrow> uint64 \<Rightarrow> nat option \<Rightarrow> flow_globals \<Rightarrow> error + nat \<times> flow_globals" where
  "SetGenerator generateFunction targetSpeed ctx g =
     (let (ring, g1) = new_ring g;
          made =
            (if targetSpeed > 0 then
               (case generateFunction of
                  PacketFn f \<Rightarrow>
                    (let (generate, g2) = makeGeneratorPerf ring (Some f) None targetSpeed ctx g1
                     in Inr (append_Clonable generate g2))
                | VectorFn f \<Rightarrow>
                    (let (generate, g2) = makeGeneratorPerf ring None (Some f) targetSpeed ctx g1
                     in Inr (append_Clonable generate g2))
                | _ \<Rightarrow> Inl (LogError ''Function argument of SetGenerator function doesn't match any applicable prototype''))
             else
               (case generateFunction of
                  PacketFn f \<Rightarrow>
                    (let (generate, g2) = makeGeneratorOne ring f g1
                     in Inr (append_UnClonable generate g2))
                | _ \<Rightarrow> Inl (LogError ''Function argument of SetGenerator function doesn't match any applicable prototype'')))
      in case made of
           Inl e \<Rightarrow> Inl e
         | Inr g3 \<Rightarrow>
             (let (OUT, g4) = new_Flow g3;
                  g5 = set_current OUT ring g4
              in Inr (OUT, inc_openFlowsNumber g5)))"

definition SetSender :: "nat \<Rightarrow> uint8 \<Rightarrow> flow_globals \<Rightarrow> error + flow_globals" where
  "SetSender IN port g =
     (case checkFlow g IN of
        Inl e \<Rightarrow> Inl e
      | Inr _ \<Rightarrow>
          if port \<ge> of_nat (length (createdPorts g)) then
            Inl (LogError ''Requested send port exceeds number of ports which can be used by DPDK (bind to DPDK).'')
          else if config (createdPorts g ! unat port) = manualPort then
            Inl (LogError ''Requested send port was previously configured as manual port. It can't be used like auto port.'')
          else
            (let g1 = update_port (unat port) (\<lambda>p. p\<lparr>config := autoPort\<rparr>) g;
                 g2 = update_port (unat port) (\<lambda>p. p\<lparr>txQueues := txQueues p @ [True]\<rparr>) g1;
                 (send, g3) = makeSender port (txQueuesNumber (createdPorts g2 ! unat port))
                                (flow_current g2 IN) g2;
                 g4 = append_UnClonable send g3;
                 g5 = set_current IN None g4;
                 g6 = dec_openFlowsNumber g5
             in Inr (update_port (unat port) (\<lambda>p. p\<lparr>txQueuesNumber := txQueuesNumber p + 1\<rparr>) g6)))"

definition SetPartitioner ::
  "nat \<Rightarrow> uint64 \<Rightarrow> uint64 \<Rightarrow> flow_globals \<Rightarrow> error + nat \<times> flow_globals" where
  "SetPartitioner IN N M g =
     (case checkFlow g IN of
        Inl e \<Rightarrow> Inl e
      | Inr _ \<Rightarrow>
          (let (OUT, g1) = new_Flow g;
               g2 = (if N = 0 \<or> M = 0
                     then LogWarning ''One of SetPartitioner function's arguments is zero.'' g1
                     else g1);
               (ringFirst, g3) = new_ring g2;
               (ringSecond, g4) = new_ring g3;
               g5 = inc_openFlowsNumber g4;
               (partition, g6) = makePartitioner (flow_current g5 IN) ringFirst ringSecond N M g5;
               g7 = append_UnClonable partition g6;
               g8 = set_current IN ringFirst g7
           in Inr (OUT, set_current OUT ringSecond g8)))"

definition SetSeparator ::
  "nat \<Rightarrow> user_function \<Rightarrow> nat option \<Rightarrow> flow_globals \<Rightarrow> error + nat \<times> flow_globals" where
  "SetSeparator IN separateFunction ctx g =
     (case checkFlow g IN of
        Inl e \<Rightarrow> Inl e
      | Inr _ \<Rightarrow>
          (let (OUT, g1) = new_Flow g;
               (ringTrue, g2) = new_ring g1;
               (ringFalse, g3) = new_ring g2;
               g4 = inc_openFlowsNumber g3;
               made =
                 (case separateFunction of
                    PacketBoolFn f \<Rightarrow>
                      Inr (makeSeparator (flow_current g4 IN) ringTrue ringFalse (Some f) None
                             ''separator'' ctx g4)
                  | VectorBoolFn f \<Rightarrow>
                      Inr (makeSeparator (flow_current g4 IN) ringTrue ringFalse None (Some f)
                             ''vector separator'' ctx g4)
                  | _ \<Rightarrow> Inl (LogError ''Function argument of SetSeparator function doesn't match any applicable prototype''))
           in case made of
                Inl e \<Rightarrow> Inl e
              | Inr (separate, g5) \<Rightarrow>
                  (let g6 = append_Clonable separate g5;
                       g7 = set_current IN ringTrue g6
                   in Inr (OUT, set_current OUT ringFalse g7))))"

text \<open>
  The loop of \<open>SetSplitter\<close> over \<open>range OutArray\<close>; the first argument counts the
  iterations that are left, the lists collect \<open>OutArray\<close> and \<open>rings\<close>.
\<close>

fun SetSplitter_loop ::
  "nat \<Rightarrow> nat list \<Rightarrow> queue_ptr list \<Rightarrow> flow_globals \<Rightarrow> nat list \<times> queue_ptr list \<times> flow_globals" where
  "SetSplitter_loop 0 OutArray rings g = (OutArray, rings, g)"
| "SetSplitter_loop (Suc k) OutArray rings g =
     (let (OUT, g1) = new_Flow g;
          g2 = inc_openFlowsNumber g1;
          (ring, g3) = new_ring g2;
          g4 = set_current OUT ring g3
      in SetSplitter_loop k (OutArray @ [OUT]) (rings @ [ring]) g4)"

definition SetSplitter ::
  "nat \<Rightarrow> nat option \<Rightarrow> nat \<Rightarrow> nat option \<Rightarrow> flow_globals \<Rightarrow> error + nat list \<times> flow_globals" where
  "SetSplitter IN splitFunction flowNumber ctx g =
     (case checkFlow g IN of
        Inl e \<Rightarrow> Inl e
      | Inr _ \<Rightarrow>
          (let (OutArray, rings, g1) = SetSplitter_loop flowNumber [] [] g;
               (split, g2) = makeSplitter (flow_current g1 IN) rings splitFunction flowNumber ctx g1;
               g3 = append_Clonable split g2;
               g4 = set_current IN None g3
           in Inr (OutArray, dec_openFlowsNumber g4)))"

definition SetStopper :: "nat \<Rightarrow> flow_globals \<Rightarrow> error + flow_globals" where
  "SetStopper IN g =
     (case checkFlow g IN of
        Inl e \<Rightarrow> Inl e
      | Inr _ \<Rightarrow>
          (let g1 = merge (flow_current g IN) (StopRing (schedState g)) g;
               g2 = set_current IN None g1
           in Inr (dec_openFlowsNumber g2)))"

definition SetHandler ::
  "nat \<Rightarrow> user_function \<Rightarrow> nat option \<Rightarrow> flow_globals \<Rightarrow> error + flow_globals" where
  "SetHandler IN handleFunction ctx g =
     (case checkFlow g IN of
        Inl e \<Rightarrow> Inl e
      | Inr _ \<Rightarrow>
          (let (ring, g1) = new_ring g;
               made =
                 (case handleFunction of
                    PacketFn f \<Rightarrow>
                      Inr (makeHandler (flow_current g1 IN) ring (Some f) None ''handler'' ctx g1)
                  | VectorFn f \<Rightarrow>
                      Inr (makeHandler (flow_current g1 IN) ring None (Some f) ''vector handler'' ctx g1)
                  | PacketBoolFn f \<Rightarrow>
                      Inr (makeSeparator (flow_current g1 IN) ring (StopRing (schedState g1))
                             (Some f) None ''handler'' ctx g1)
                  | VectorBoolFn f \<Rightarrow>
                      Inr (makeSeparator (flow_current g1 IN) ring (StopRing (schedState g1))
                             None (Some f) ''vector handler'' ctx g1)
                  | OtherFn \<Rightarrow> Inl (LogError ''Function argument of SetHandler function doesn't match any applicable prototype''))
           in case made of
                Inl e \<Rightarrow> Inl e
              | Inr (handle, g2) \<Rightarrow> Inr (set_current IN ring (append_Clonable handle g2))))"

text \<open>The loop of \<open>SetMerger\<close> over \<open>range InArray\<close>.\<close>

fun SetMerger_loop :: "nat list \<Rightarrow> queue_ptr \<Rightarrow> flow_globals \<Rightarrow> error + flow_globals" where
  "SetMerger_loop [] ring g = Inr g"
| "SetMerger_loop (f # InArray) ring g =
     (case checkFlow g f of
        Inl e \<Rightarrow> Inl e
      | Inr _ \<Rightarrow>
          (let g1 = merge (flow_current g f) ring g;
               g2 = set_current f None g1
           in SetMerger_loop InArray ring (dec_openFlowsNumber g2)))"

definition SetMerger :: "nat list \<Rightarrow> flow_globals \<Rightarrow> error + nat \<times> flow_globals" where
  "SetMerger InArray g =
     (let (ring, g1) = new_ring g
      in case SetMerger_loop InArray ring g1 of
           Inl e \<Rightarrow> Inl e
         | Inr g2 \<Rightarrow>
             (let (OUT, g3) = new_Flow g2;
                  g4 = set_current OUT ring g3
              in Inr (OUT, inc_openFlowsNumber g4)))"

definition checkPort :: "port \<Rightarrow> error + unit" where
  "checkPort p =
     (if config p = inactivePort then Inr ()
      else if rxQueuesNumber p = 0 \<and> txQueuesNumber p = 0 then
        Inl (LogError ''Port has no send and receive queues. It is an error in DPDK.'')
      else if list_ex (\<lambda>q. q \<noteq> True) (rxQueues p) then
        Inl (LogError ''Port doesn't use all receive queues, packets can be missed due to RSS!'')
      else Inr ())"

fun checkPorts :: "port list \<Rightarrow> error + unit" where
  "checkPorts [] = Inr ()"
| "checkPorts (p # ps) = (case checkPort p of Inl e \<Rightarrow> Inl e | Inr _ \<Rightarrow> checkPorts ps)"

text \<open>
  \<open>checkSystem\<close>: the first check is the one on the open flows. The warning about unused
  send queues does not stop the start and is left out of the result.
\<close>

definition checkSystem :: "flow_globals \<Rightarrow> error + unit" where
  "checkSystem g =
     (if openFlowsNumber g \<noteq> 0
      then Inl (LogError ''Some flows are left open at the end of configuration!'')
      else checkPorts (createdPorts g))"

subsection \<open>Programs over the builder\<close>

text \<open>
  A construction is a sequence of calls of the Set functions between \<open>SystemInit\<close> and
  \<open>SystemStart\<close>. The calls name their \<open>*Flow\<close> arguments by index into the heap of
  flows, so a call may be given any flow that an earlier call returned, open or closed, any
  number of times. A call that reports an error ends the construction.
\<close>

datatype builder_call =
    CallSetWriter nat string
  | CallSetReader string "32 word"
  | CallSetReceiver uint8
  | CallSetGenerator user_function uint64 "nat option"
  | CallSetSender nat uint8
  | CallSetPartitioner nat uint64 uint64
  | CallSetSeparator nat user_function "nat option"
  | CallSetSplitter nat "nat option" nat "nat option"
  | CallSetStopper nat
  | CallSetHandler nat user_function "nat option"
  | CallSetMerger "nat list"

fun builder_step :: "builder_call \<Rightarrow> flow_globals \<Rightarrow> error + flow_globals" where
  "builder_step (CallSetWriter IN filename) g = SetWriter IN filename g"
| "builder_step (CallSetReader filename repcount) g = Inr (snd (SetReader filename repcount g))"
| "builder_step (CallSetReceiver port) g = map_sum id snd (SetReceiver port g)"
| "builder_step (CallSetGenerator f targetSpeed ctx) g = map_sum id snd (SetGenerator f targetSpeed ctx g)"
| "builder_step (CallSetSender IN port) g = SetSender IN port g"
| "builder_step (CallSetPartitioner IN N M) g = map_sum id snd (SetPartitioner IN N M g)"
| "builder_step (CallSetSeparator IN f ctx) g = map_sum id snd (SetSeparator IN f ctx g)"
| "builder_step (CallSetSplitter IN f flowNumber ctx) g = map_sum id snd (SetSplitter IN f flowNumber ctx g)"
| "builder_step (CallSetStopper IN) g = SetStopper IN g"
| "builder_step (CallSetHandler IN f ctx) g = SetHandler IN f ctx g"
| "builder_step (CallSetMerger InArray) g = map_sum id snd (SetMerger InArray g)"

fun builder_run :: "builder_call list \<Rightarrow> flow_globals \<Rightarrow> error + flow_globals" where
  "builder_run [] g = Inr g"
| "builder_run (c # cs) g =
     (case builder_step c g of Inl e \<Rightarrow> Inl e | Inr g' \<Rightarrow> builder_run cs g')"

text \<open>The flows of a call that are its inputs.\<close>

fun call_inputs :: "builder_call \<Rightarrow> nat list" where
  "call_inputs (CallSetWriter IN filename) = [IN]"
| "call_inputs (CallSetReader filename repcount) = []"
| "call_inputs (CallSetReceiver port) = []"
| "call_inputs (CallSetGenerator f targetSpeed ctx) = []"
| "call_inputs (CallSetSender IN port) = [IN]"
| "call_inputs (CallSetPartitioner IN N M) = [IN]"
| "call_inputs (CallSetSeparator IN f ctx) = [IN]"
| "call_inputs (CallSetSplitter IN f flowNumber ctx) = [IN]"
| "call_inputs (CallSetStopper IN) = [IN]"
| "call_inputs (CallSetHandler IN f ctx) = [IN]"
| "call_inputs (CallSetMerger InArray) = InArray"

text \<open>The number of \<open>Flow\<close> handles whose producer side is open: \<open>current\<close> is not \<open>nil\<close>.\<close>

definition open_flows :: "flow_globals \<Rightarrow> nat" where
  "open_flows g = length (filter (\<lambda>c. c \<noteq> None) (flows g))"

text \<open>
  The invariants of the construction: the counter of open flows is the number of open
  \<open>Flow\<close> handles (as a \<open>uint32\<close>), and every port carries the queues it was given.
\<close>

definition flows_inv :: "flow_globals \<Rightarrow> bool" where
  "flows_inv g \<longleftrightarrow> openFlowsNumber g = of_nat (open_flows g)"

definition port_ok :: "port \<Rightarrow> bool" where
  "port_ok p \<longleftrightarrow>
     rxQueuesNumber p = of_nat (length (rxQueues p)) \<and>
     txQueuesNumber p = of_nat (length (txQueues p)) \<and>
     \<not> list_ex (\<lambda>q. q \<noteq> True) (rxQueues p) \<and>
     (config p = inactivePort \<or> rxQueues p \<noteq> [] \<or> txQueues p \<noteq> [])"

definition ports_inv :: "flow_globals \<Rightarrow> bool" where
  "ports_inv g \<longleftrightarrow> list_all port_ok (createdPorts g)"

definition builder_inv :: "flow_globals \<Rightarrow> bool" where
  "builder_inv g \<longleftrightarrow> flows_inv g \<and> ports_inv g"

text \<open>The configuration of the stability tests: \<^verbatim>\<open>flow.Config{CPUCoresNumber: 16}\<close>.\<close>

definition testConfig :: Config where
  "testConfig = \<lparr>CPUCoresNumber = 16, DisableScheduler = False, PersistentClones = False,
     StopOnDedicatedCore = False, HWTXChecksum = False, MbufNumber = 0, MbufCacheSize = 0,
     RingSize = 0, ScaleTime = 0, BurstSize = 0, CheckTime = 0, DebugTime = 0, LogType = 0,
     DPDKArgs = []\<rparr>"

text \<open>The construction of the stability test \<open>test_handle2\<close>, part 1.\<close>

definition handle2_program :: "builder_call list" where
  "handle2_program =
     [CallSetGenerator (PacketFn 1) 0 None, CallSetGenerator (PacketFn 2) 0 None,
      CallSetGenerator (PacketFn 3) 0 None, CallSetMerger [0, 1, 2], CallSetSender 3 0,
      CallSetReceiver 0, CallSetHandler 4 (PacketFn 4) None, CallSetStopper 4]"

section \<open>Rings and the safe enqueue\<close>

text \<open>
  Modelled from the spec: the ring of package \<open>low\<close> (not part of the sources at hand) is
  a bounded queue of buffer handles of fixed capacity. \<open>EnqueueBurst\<close> moves up to \<open>n\<close>
  handles from the front of the array into the ring and reports the count accepted (0 when
  full), it never blocks; \<open>DequeueBurst\<close> is symmetric and reports the handles it moved;
  \<open>GetQueueCount\<close> is the occupancy at the moment of the call.
\<close>

record Queue =
  ring_contents :: "uintptr list"
  ring_capacity :: nat

definition EnqueueBurst :: "Queue \<Rightarrow> uintptr list \<Rightarrow> nat \<Rightarrow> Queue \<times> nat" where
  "EnqueueBurst q buffer n =
     (let moved = min n (ring_capacity q - length (ring_contents q))
      in (q\<lparr>ring_contents := ring_contents q @ take moved buffer\<rparr>, moved))"

definition DequeueBurst :: "Queue \<Rightarrow> nat \<Rightarrow> Queue \<times> uintptr list" where
  "DequeueBurst q n =
     (q\<lparr>ring_contents := drop n (ring_contents q)\<rparr>, take n (ring_contents q))"

definition GetQueueCount :: "Queue \<Rightarrow> uint32" where
  "GetQueueCount q = of_nat (length (ring_contents q))"

text \<open>
  What a running stage works on: the scheduler (of which \<open>safeEnqueue\<close> reads \<open>StopRing\<close>
  and updates \<open>Dropped\<close>), the rings by name, the free buffers of the mempools by
  number, the handles freed by \<open>low.DirectStop\<close> in the order of the calls, and the log
  of warnings.
\<close>

record runtime =
  rt_sched :: Scheduler
  rt_rings :: "nat \<Rightarrow> Queue"
  rt_mempools :: "nat \<Rightarrow> uintptr list"
  rt_stopped :: "uintptr list"
  rt_warnings :: "string list"

text \<open>
  Modelled from the spec: \<open>low.DirectStop(n, handles)\<close> is the synchronous in-line free of
  \<open>n\<close> handles.
\<close>

definition DirectStop :: "nat \<Rightarrow> uintptr list \<Rightarrow> runtime \<Rightarrow> runtime" where
  "DirectStop n handles w = w\<lparr>rt_stopped := rt_stopped w @ take n handles\<rparr>"

text \<open>
  \<open>safeEnqueue(place, data, number)\<close>. \<open>number\<close> counts elements of \<open>data\<close> and is kept
  as a natural number; the slice expressions \<open>data[done:number]\<close> and
  \<open>data[done+done2:number]\<close> panic when \<open>number\<close> exceeds the capacity of \<open>data\<close>. A
  \<open>nil\<close> ring is a fault of the C call.
\<close>

definition safeEnqueue :: "queue_ptr \<Rightarrow> uintptr list \<Rightarrow> nat \<Rightarrow> runtime \<Rightarrow> error + runtime" where
  "safeEnqueue place data number w =
     (case place of
        None \<Rightarrow> Inl (Panic ''nil ring'')
      | Some p \<Rightarrow>
          (let (q1, done) = EnqueueBurst (rt_rings w p) data number;
               w1 = w\<lparr>rt_rings := (rt_rings w)(p := q1)\<rparr>
           in if done < number then
                (let w2 = w1\<lparr>rt_sched := (rt_sched w1)
                            \<lparr>Dropped := Dropped (rt_sched w1) + of_nat (number - done)\<rparr>\<rparr>
                 in case StopRing (rt_sched w2) of
                      None \<Rightarrow> Inl (Panic ''nil ring'')
                    | Some s \<Rightarrow>
                        if length data < number then Inl (Panic ''slice bounds out of range'')
                        else
                          (let (q2, done2) =
                                 EnqueueBurst (rt_rings w2 s) (drop done (take number data))
                                   (number - done);
                               w3 = w2\<lparr>rt_rings := (rt_rings w2)(s := q2)\<rparr>
                           in if done2 < number - done then
                                Inr (DirectStop (number - done - done2)
                                       (drop (done + done2) (take number data))
                                       (w3\<lparr>rt_warnings := rt_warnings w3 @
                                          [''Normal fast stop is crowded. Use slow C stop instead.'']\<rparr>))
                              else Inr w3))
              else Inr w1))"

section \<open>The should-clone predicates\<close>

text \<open>
  The check functions get the parameters as \<open>interface{}\<close>; the type assertion panics on
  another struct. \<open>debug\<close> only adds a line to the debug log. The ring memory and
  \<open>maxPacketsToClone\<close> are passed in.
\<close>

definition generateCheck :: "Parameters \<Rightarrow> uint64 \<Rightarrow> bool \<Rightarrow> error + bool" where
  "generateCheck parameters speedPKTS debug =
     (case parameters of
        generateParameters out targetSpeed gf vgf mempool \<Rightarrow>
          Inr (if speedPKTS < targetSpeed then True else False)
      | _ \<Rightarrow> Inl (Panic ''interface conversion''))"

definition queue_over_threshold :: "(nat \<Rightarrow> Queue) \<Rightarrow> uint32 \<Rightarrow> queue_ptr \<Rightarrow> error + bool" where
  \<comment> \<open>\<^verbatim>\<open>if IN.GetQueueCount() > maxPacketsToClone { return true }; return false\<close>\<close>
  "queue_over_threshold rings maxP IN =
     (case IN of
        None \<Rightarrow> Inl (Panic ''nil ring'')
      | Some r \<Rightarrow> Inr (if GetQueueCount (rings r) > maxP then True else False))"

definition separateCheck ::
  "(nat \<Rightarrow> Queue) \<Rightarrow> uint32 \<Rightarrow> Parameters \<Rightarrow> uint64 \<Rightarrow> bool \<Rightarrow> error + bool" where
  "separateCheck rings maxP parameters speedPKTS debug =
     (case parameters of
        separateParameters IN outTrue outFalse sf vsf \<Rightarrow> queue_over_threshold rings maxP IN
      | _ \<Rightarrow> Inl (Panic ''interface conversion''))"

definition splitCheck ::
  "(nat \<Rightarrow> Queue) \<Rightarrow> uint32 \<Rightarrow> Parameters \<Rightarrow> uint64 \<Rightarrow> bool \<Rightarrow> error + bool" where
  "splitCheck rings maxP parameters speedPKTS debug =
     (case parameters of
        splitParameters IN outs sf flowNumber \<Rightarrow> queue_over_threshold rings maxP IN
      | _ \<Rightarrow> Inl (Panic ''interface conversion''))"

definition handleCheck ::
  "(nat \<Rightarrow> Queue) \<Rightarrow> uint32 \<Rightarrow> Parameters \<Rightarrow> uint64 \<Rightarrow> bool \<Rightarrow> error + bool" where
  "handleCheck rings maxP parameters speedPKTS debug =
     (case parameters of
        handleParameters IN out hf vhf \<Rightarrow> queue_over_threshold rings maxP IN
      | _ \<Rightarrow> Inl (Panic ''interface conversion''))"

text \<open>
  Modelled from the spec: the control loop of the scheduler consults the predicate of a
  clonable stage with the parameters of that stage.
\<close>

definition should_clone ::
  "(nat \<Rightarrow> Queue) \<Rightarrow> uint32 \<Rightarrow> FlowFunction \<Rightarrow> uint64 \<Rightarrow> bool \<Rightarrow> error + bool" where
  "should_clone rings maxP ff speedPKTS debug =
     (case ffCheck ff of
        None \<Rightarrow> Inl (Panic ''nil function'')
      | Some generateCheck_body \<Rightarrow> generateCheck (ffParameters ff) speedPKTS debug
      | Some separateCheck_body \<Rightarrow> separateCheck rings maxP (ffParameters ff) speedPKTS debug
      | Some splitCheck_body \<Rightarrow> splitCheck rings maxP (ffParameters ff) speedPKTS debug
      | Some handleCheck_body \<Rightarrow> handleCheck rings maxP (ffParameters ff) speedPKTS debug)"

text \<open>
  A small runtime: the scheduler of the test configuration (stop ring 1), the stop ring
  with room for one handle, every other ring with room for two.
\<close>

definition test_runtime :: runtime where
  "test_runtime =
     \<lparr>rt_sched = schedState (SystemInit 16 2 testConfig package_init),
      rt_rings = (\<lambda>r. \<lparr>ring_contents = [], ring_capacity = (if r = 1 then 1 else 2)\<rparr>),
      rt_mempools = (\<lambda>m. []),
      rt_stopped = [], rt_warnings = []\<rparr>"

section \<open>Loops over a burst\<close>

definition bindE :: "error + 'a \<Rightarrow> ('a \<Rightarrow> error + 'b) \<Rightarrow> error + 'b" where
  "bindE m f = (case m of Inl e \<Rightarrow> Inl e | Inr x \<Rightarrow> f x)"

text \<open>\<^verbatim>\<open>for i := uint(0); i < n; i++ { body }\<close>: \<open>for_loop n body\<close>.\<close>

primrec for_loop :: "nat \<Rightarrow> (nat \<Rightarrow> 's \<Rightarrow> error + 's) \<Rightarrow> 's \<Rightarrow> error + 's" where
  "for_loop 0 body s = Inr s"
| "for_loop (Suc n) body s = bindE (for_loop n body s) (body n)"

text \<open>Reading and writing a slice element; Go panics when the index is out of range.\<close>

definition index_get :: "'a list \<Rightarrow> nat \<Rightarrow> error + 'a" where
  "index_get xs i = (if i < length xs then Inr (xs ! i) else Inl (Panic ''index out of range''))"

definition index_set :: "'a list \<Rightarrow> nat \<Rightarrow> 'a \<Rightarrow> error + 'a list" where
  "index_set xs i v =
     (if i < length xs then Inr (xs[i := v]) else Inl (Panic ''index out of range''))"

section \<open>The partition stage\<close>

text \<open>
  The variables of \<open>partition\<close> that live across the iterations of its endless loop.
  \<open>countOfPackets\<close> and the loop index are \<open>uint\<close>s that count elements of the arrays and
  are kept as natural numbers; \<open>uint(i)-countOfPackets\<close> below zero would wrap around to an
  index out of range.
\<close>

record partition_locals =
  bufsFirst :: "uintptr list"
  bufsSecond :: "uintptr list"
  countOfPackets :: nat
  currentPacketNumber :: uint64
  sw :: bool

text \<open>The body of the loop over the burst, for the packet at index \<open>i\<close>.\<close>

definition partition_packet ::
  "uint64 \<Rightarrow> uint64 \<Rightarrow> uintptr list \<Rightarrow> nat \<Rightarrow> partition_locals \<Rightarrow> error + partition_locals" where
  "partition_packet N M bufsIn i l =
     (let l1 = l\<lparr>currentPacketNumber := currentPacketNumber l + 1\<rparr>
      in if sw l1 = True then
           bindE (index_get bufsIn i) (\<lambda>x.
           bindE (index_set (bufsFirst l1) (countOfPackets l1) x) (\<lambda>bf.
             (let l2 = l1\<lparr>bufsFirst := bf, countOfPackets := countOfPackets l1 + 1\<rparr>
              in Inr (if currentPacketNumber l2 = N
                      then l2\<lparr>sw := False, currentPacketNumber := 0\<rparr> else l2))))
         else
           bindE (index_get bufsIn i) (\<lambda>x.
           if i < countOfPackets l1 then Inl (Panic ''index out of range'')
           else
             bindE (index_set (bufsSecond l1) (i - countOfPackets l1) x) (\<lambda>bs.
               (let l2 = l1\<lparr>bufsSecond := bs\<rparr>
                in Inr (if currentPacketNumber l2 = M
                        then l2\<lparr>sw := True, currentPacketNumber := 0\<rparr> else l2)))))"

text \<open>\<^verbatim>\<open>countOfPackets = 0; for i := uint(0); i < n; i++ { ... }\<close>\<close>

definition partition_burst ::
  "uint64 \<Rightarrow> uint64 \<Rightarrow> uintptr list \<Rightarrow> nat \<Rightarrow> partition_locals \<Rightarrow> error + partition_locals" where
  "partition_burst N M bufsIn n l =
     for_loop n (partition_packet N M bufsIn) (l\<lparr>countOfPackets := 0\<rparr>)"

text \<open>
  The endless loop of \<open>partition\<close>, run over the bursts that the successive calls of
  \<open>IN.DequeueBurst(bufsIn, burstSize)\<close> deliver: a burst of \<open>n\<close> handles overwrites the
  first \<open>n\<close> elements of \<open>bufsIn\<close>, an empty one makes the loop \<open>continue\<close>. The result
  collects, in the order of the calls, what the stage hands to
  \<open>safeEnqueue(OUTFirst, bufsFirst, countOfPackets)\<close> and to
  \<open>safeEnqueue(OUTSecond, bufsSecond, n - countOfPackets)\<close>: the first \<open>number\<close> elements
  of the array.
\<close>

fun partition_run ::
  "uint64 \<Rightarrow> uint64 \<Rightarrow> uintptr list list \<Rightarrow> uintptr list \<Rightarrow> partition_locals
     \<Rightarrow> error + uintptr list \<times> uintptr list \<times> partition_locals" where
  "partition_run N M [] bufsIn l = Inr ([], [], l)"
| "partition_run N M (burst # bursts) bufsIn l =
     (let n = length burst; bufsIn1 = burst @ drop n bufsIn
      in if n = 0 then partition_run N M bursts bufsIn1 l
         else
           bindE (partition_burst N M bufsIn1 n l) (\<lambda>l1.
           bindE (partition_run N M bursts bufsIn1 l1) (\<lambda>(firsts, seconds, l2).
             Inr (take (countOfPackets l1) (bufsFirst l1) @ firsts,
                  take (n - countOfPackets l1) (bufsSecond l1) @ seconds, l2))))"

text \<open>The variables of \<open>partition\<close> before its loop, for a burst size.\<close>

definition partition_start :: "nat \<Rightarrow> partition_locals" where
  "partition_start burst =
     \<lparr>bufsFirst = replicate burst 0, bufsSecond = replicate burst 0, countOfPackets = 0,
      currentPacketNumber = 0, sw = True\<rparr>"

subsection \<open>The machine of the specification\<close>

text \<open>
  The Moore machine in the words of the specification: states \<open>FirstSide\<close> and
  \<open>SecondSide\<close> with a counter, initially \<open>FirstSide\<close> with 0; each packet goes to the
  output of the state it meets and advances the counter; on reaching the bound of the
  side (\<open>N\<close> or \<open>M\<close>) the side flips and the counter is 0 again.
\<close>

datatype side = FirstSide | SecondSide

fun moore_step :: "nat \<Rightarrow> nat \<Rightarrow> side \<times> nat \<Rightarrow> side \<times> nat" where
  "moore_step N M (FirstSide, k) = (if k + 1 = N then (SecondSide, 0) else (FirstSide, k + 1))"
| "moore_step N M (SecondSide, k) = (if k + 1 = M then (FirstSide, 0) else (SecondSide, k + 1))"

fun moore_route :: "nat \<Rightarrow> nat \<Rightarrow> side \<times> nat \<Rightarrow> 'a list \<Rightarrow> ('a \<times> side) list" where
  "moore_route N M st [] = []"
| "moore_route N M st (x # xs) = (x, fst st) # moore_route N M (moore_step N M st) xs"

definition routed_to :: "side \<Rightarrow> ('a \<times> side) list \<Rightarrow> 'a list" where
  "routed_to sd tagged = map fst (filter (\<lambda>(x, s). s = sd) tagged)"

text \<open>Dealing a list out alternately, the first element to the first output.\<close>

fun deal :: "'a list \<Rightarrow> 'a list \<times> 'a list" where
  "deal [] = ([], [])"
| "deal [x] = ([x], [])"
| "deal (x # y # xs) = (x # fst (deal xs), y # snd (deal xs))"

text \<open>The state of the machine that the variables of \<open>partition\<close> stand for, and the bound on the counter.\<close>

definition partition_abs :: "partition_locals \<Rightarrow> side \<times> nat" where
  "partition_abs l = (if sw l then FirstSide else SecondSide, unat (currentPacketNumber l))"

definition partition_wf :: "uint64 \<Rightarrow> uint64 \<Rightarrow> partition_locals \<Rightarrow> bool" where
  "partition_wf N M l \<longleftrightarrow> unat (currentPacketNumber l) < (if sw l then unat N else unat M)"

definition moore_final :: "nat \<Rightarrow> nat \<Rightarrow> side \<times> nat \<Rightarrow> 'a list \<Rightarrow> side \<times> nat" where
  "moore_final N M st xs = fold (\<lambda>x. moore_step N M) xs st"

section \<open>The replicas of the clonable stages\<close>

text \<open>
  \<open>handle\<close>, \<open>separate\<close>, \<open>split\<close> and \<open>generatePerf\<close> are endless loops around one
  \<open>select\<close> with the same three cases: a value received from \<open>stopper\<close>, a tick, and
  \<open>default\<close>. What \<open>select\<close> chooses in a round is an input of the model, and so is what
  the other threads do to the shared state between two rounds.
\<close>

datatype replica_event =
    stopper_recv int
  | tick_recv
  | default_case
  | environment "runtime \<Rightarrow> runtime"

text \<open>
  The variables the four functions share, with what a replica does to the outside:
  \<open>returned\<close> is set by the \<open>return\<close> of the function, \<open>stopper_closed\<close> by
  \<open>close(stopper)\<close>, \<open>reports\<close> lists the values sent on the report channel and \<open>sleeps\<close>
  the arguments of \<open>time.Sleep\<close>, in nanoseconds. \<open>pause\<close> is a Go \<open>int\<close>, which is only
  compared with \<open>-1\<close> and \<open>0\<close> and converted to a \<open>time.Duration\<close> of as many
  nanoseconds.
\<close>

record 'c replica =
  pause :: int
  currentSpeed :: uint64
  returned :: bool
  stopper_closed :: bool
  reports :: "uint64 list"
  sleeps :: "int list"
  userContext :: 'c
  world :: runtime

definition select_step ::
  "(('c, 'm) replica_scheme \<Rightarrow> error + ('c, 'm) replica_scheme) \<Rightarrow> replica_event
     \<Rightarrow> ('c, 'm) replica_scheme \<Rightarrow> error + ('c, 'm) replica_scheme" where
  "select_step default_body ev r =
     (case ev of
        stopper_recv v \<Rightarrow>
          (let r1 = r\<lparr>pause := v\<rparr>
           in if pause r1 = - 1 then Inr (r1\<lparr>stopper_closed := True, returned := True\<rparr>)
              else Inr r1)
      | tick_recv \<Rightarrow> Inr (r\<lparr>reports := reports r @ [currentSpeed r], currentSpeed := 0\<rparr>)
      | default_case \<Rightarrow> default_body r
      | environment f \<Rightarrow> Inr (r\<lparr>world := f (world r)\<rparr>))"

text \<open>The loop: rounds of \<open>select\<close> until the function has returned.\<close>

fun replica_run ::
  "(replica_event \<Rightarrow> ('c, 'm) replica_scheme \<Rightarrow> error + ('c, 'm) replica_scheme)
     \<Rightarrow> replica_event list \<Rightarrow> ('c, 'm) replica_scheme \<Rightarrow> error + ('c, 'm) replica_scheme" where
  "replica_run step [] r = Inr r"
| "replica_run step (ev # evs) r =
     (if returned r then Inr r else bindE (step ev r) (replica_run step evs))"

text \<open>
  \<^verbatim>\<open>if pause != 0 { time.Sleep(time.Duration(pause) * time.Nanosecond) }; continue\<close>
\<close>

definition idle :: "('c, 'm) replica_scheme \<Rightarrow> ('c, 'm) replica_scheme" where
  "idle r = (if pause r \<noteq> 0 then r\<lparr>sleeps := sleeps r @ [pause r]\<rparr> else r)"

text \<open>
  \<open>n := IN.DequeueBurst(array, burstSize)\<close> on the rings of the state: the new content of
  the array, \<open>n\<close> and the new state.
\<close>

definition dequeue ::
  "queue_ptr \<Rightarrow> uintptr list \<Rightarrow> nat \<Rightarrow> runtime \<Rightarrow> error + uintptr list \<times> nat \<times> runtime" where
  "dequeue IN array n w =
     (case IN of
        None \<Rightarrow> Inl (Panic ''nil ring'')
      | Some r \<Rightarrow>
          (let (q1, got) = DequeueBurst (rt_rings w r) n
           in Inr (got @ drop (length got) array, length got,
                   w\<lparr>rt_rings := (rt_rings w)(r := q1)\<rparr>)))"

text \<open>
  \<open>packet.ExtractPacketAddr\<close>: \<^verbatim>\<open>return IN + mbufStructSize\<close>, with
  \<open>mbufStructSize = unsafe.Sizeof(low.Mbuf)\<close> a parameter; \<open>packet.ToPacket\<close> is a cast.
\<close>

definition ExtractPacketAddr :: "uintptr \<Rightarrow> uintptr \<Rightarrow> uintptr" where
  "ExtractPacketAddr mbufStructSize IN = IN + mbufStructSize"

text \<open>\<open>packet.ExtractPackets(packet, IN, n)\<close>: the new content of \<open>packet\<close>.\<close>

definition ExtractPackets ::
  "uintptr \<Rightarrow> uintptr list \<Rightarrow> uintptr list \<Rightarrow> nat \<Rightarrow> error + uintptr list" where
  "ExtractPackets mbufStructSize packet IN n =
     for_loop n (\<lambda>i pk. bindE (index_get IN i)
        (\<lambda>x. index_set pk i (ExtractPacketAddr mbufStructSize x))) packet"

text \<open>Calling a function value that may be \<open>nil\<close>.\<close>

definition call :: "'f option \<Rightarrow> ('f \<Rightarrow> error + 'a) \<Rightarrow> error + 'a" where
  "call fn k = (case fn of None \<Rightarrow> Inl (Panic ''nil function'') | Some f \<Rightarrow> k f)"

subsection \<open>separate\<close>

text \<open>
  A user function gets the packet and the user context, and may change what the context
  points to: it maps the context to its result and the new context.
\<close>

record 'c separate_par =
  sp_in :: queue_ptr
  sp_outTrue :: queue_ptr
  sp_outFalse :: queue_ptr
  sp_separateFunction :: "(uintptr \<Rightarrow> 'c \<Rightarrow> bool \<times> 'c) option"
  sp_vectorSeparateFunction :: "(uintptr list \<Rightarrow> bool list \<Rightarrow> nat \<Rightarrow> 'c \<Rightarrow> bool list \<times> 'c) option"

record 'c separate_state = "'c replica" +
  sep_bufsIn :: "uintptr list"
  bufsTrue :: "uintptr list"
  bufsFalse :: "uintptr list"
  ttt :: "bool list"
  sep_countOfPackets :: nat
  sep_tempPacketAddr :: uintptr
  sep_tempPackets :: "uintptr list"

text \<open>
  \<^verbatim>\<open>if res == false { bufsFalse[countOfPackets] = bufsIn[i]; countOfPackets++ }
else { bufsTrue[uint(i)-countOfPackets] = bufsIn[i] }\<close>
\<close>

definition separate_place :: "bool \<Rightarrow> nat \<Rightarrow> 'c separate_state \<Rightarrow> error + 'c separate_state" where
  "separate_place res i r =
     (if res = False then
        bindE (index_get (sep_bufsIn r) i) (\<lambda>x.
        bindE (index_set (bufsFalse r) (sep_countOfPackets r) x) (\<lambda>bf.
          Inr (r\<lparr>bufsFalse := bf, sep_countOfPackets := sep_countOfPackets r + 1\<rparr>)))
      else
        bindE (index_get (sep_bufsIn r) i) (\<lambda>x.
        if i < sep_countOfPackets r then Inl (Panic ''index out of range'')
        else bindE (index_set (bufsTrue r) (i - sep_countOfPackets r) x) (\<lambda>bt.
          Inr (r\<lparr>bufsTrue := bt\<rparr>))))"

text \<open>The body of the loop over \<open>i < n-1\<close> of the scalar variant.\<close>

definition separate_packet ::
  "'c separate_par \<Rightarrow> uintptr \<Rightarrow> nat \<Rightarrow> 'c separate_state \<Rightarrow> error + 'c separate_state" where
  "separate_packet par mbufStructSize i r =
     (let tempPacket = sep_tempPacketAddr r
      in bindE (index_get (sep_bufsIn r) (i + 1)) (\<lambda>nxt.
         (let r1 = r\<lparr>sep_tempPacketAddr := ExtractPacketAddr mbufStructSize nxt\<rparr>
          in call (sp_separateFunction par) (\<lambda>f.
               (let (res, c) = f tempPacket (userContext r1)
                in separate_place res i (r1\<lparr>userContext := c\<rparr>))))))"

text \<open>
  The part of the \<open>default\<close> case of \<open>separate\<close> that sorts a burst of \<open>n > 0\<close> packets
  into \<open>bufsTrue\<close> and \<open>bufsFalse\<close>, from \<open>countOfPackets = 0\<close> to the calls of
  \<open>safeEnqueue\<close>.
\<close>

definition separate_burst ::
  "'c separate_par \<Rightarrow> uintptr \<Rightarrow> nat \<Rightarrow> 'c separate_state \<Rightarrow> error + 'c separate_state" where
  "separate_burst par mbufStructSize n r =
     (let r0 = r\<lparr>sep_countOfPackets := 0\<rparr>
      in if sp_vectorSeparateFunction par = None then
           bindE (index_get (sep_bufsIn r0) 0) (\<lambda>x0.
           bindE (for_loop (n - 1) (separate_packet par mbufStructSize)
                    (r0\<lparr>sep_tempPacketAddr := ExtractPacketAddr mbufStructSize x0\<rparr>)) (\<lambda>r1.
           call (sp_separateFunction par) (\<lambda>f.
             (let (res, c) = f (sep_tempPacketAddr r1) (userContext r1)
              in separate_place res (n - 1) (r1\<lparr>userContext := c\<rparr>)))))
         else
           bindE (ExtractPackets mbufStructSize (sep_tempPackets r0) (sep_bufsIn r0) n) (\<lambda>pk.
           call (sp_vectorSeparateFunction par) (\<lambda>vf.
             (let (t, c) = vf pk (ttt r0) n (userContext r0);
                  r1 = r0\<lparr>sep_tempPackets := pk, ttt := t, userContext := c\<rparr>
              in for_loop n (\<lambda>i r2. bindE (index_get (ttt r2) i) (\<lambda>res. separate_place res i r2))
                   r1))))"

definition separate_default ::
  "'c separate_par \<Rightarrow> nat \<Rightarrow> uintptr \<Rightarrow> 'c separate_state \<Rightarrow> error + 'c separate_state" where
  "separate_default par burst mbufStructSize r =
     bindE (dequeue (sp_in par) (sep_bufsIn r) burst (world r)) (\<lambda>(array, n, w).
       (let r1 = r\<lparr>world := w, sep_bufsIn := array\<rparr>
        in if n = 0 then Inr (idle r1)
           else
             bindE (separate_burst par mbufStructSize n r1) (\<lambda>r2.
             bindE (if sep_countOfPackets r2 \<noteq> 0
                    then safeEnqueue (sp_outFalse par) (bufsFalse r2) (sep_countOfPackets r2) (world r2)
                    else Inr (world r2)) (\<lambda>w1.
             bindE (if sep_countOfPackets r2 \<noteq> n
                    then safeEnqueue (sp_outTrue par) (bufsTrue r2) (n - sep_countOfPackets r2) w1
                    else Inr w1) (\<lambda>w2.
               Inr (r2\<lparr>world := w2, currentSpeed := currentSpeed r2 + of_nat n\<rparr>))))))"

definition separate_step ::
  "'c separate_par \<Rightarrow> nat \<Rightarrow> uintptr \<Rightarrow> replica_event \<Rightarrow> 'c separate_state \<Rightarrow> error + 'c separate_state" where
  "separate_step par burst mbufStructSize = select_step (separate_default par burst mbufStructSize)"

text \<open>
  The answers of a separate function to a list of packets, in the order of the calls, each
  call starting from the context the call before left.
\<close>

fun separate_answers :: "(uintptr \<Rightarrow> 'c \<Rightarrow> bool \<times> 'c) \<Rightarrow> 'c \<Rightarrow> uintptr list \<Rightarrow> bool list \<times> 'c" where
  "separate_answers f c [] = ([], c)"
| "separate_answers f c (p # ps) =
     (let (res, c1) = f p c; (rs, c2) = separate_answers f c1 ps in (res # rs, c2))"

text \<open>The elements of a list that are paired with a given answer, in their order.\<close>

definition chosen :: "bool \<Rightarrow> 'a list \<Rightarrow> bool list \<Rightarrow> 'a list" where
  "chosen b xs answers = map fst (filter (\<lambda>(x, a). a = b) (zip xs answers))"

subsection \<open>handle\<close>

record 'c handle_par =
  hp_in :: queue_ptr
  hp_out :: queue_ptr
  hp_handleFunction :: "(uintptr \<Rightarrow> 'c \<Rightarrow> 'c) option"
  hp_vectorHandleFunction :: "(uintptr list \<Rightarrow> nat \<Rightarrow> 'c \<Rightarrow> 'c) option"

record 'c handle_state = "'c replica" +
  bufs :: "uintptr list"
  h_tempPacketAddr :: uintptr
  h_tempPackets :: "uintptr list"

text \<open>The body of the loop over \<open>i < n-1\<close> of the scalar variant.\<close>

definition handle_packet ::
  "'c handle_par \<Rightarrow> uintptr \<Rightarrow> nat \<Rightarrow> 'c handle_state \<Rightarrow> error + 'c handle_state" where
  "handle_packet par mbufStructSize i r =
     (let tempPacket = h_tempPacketAddr r
      in bindE (index_get (bufs r) (i + 1)) (\<lambda>nxt.
         (let r1 = r\<lparr>h_tempPacketAddr := ExtractPacketAddr mbufStructSize nxt\<rparr>
          in call (hp_handleFunction par) (\<lambda>f.
               Inr (r1\<lparr>userContext := f tempPacket (userContext r1)\<rparr>)))))"

definition handle_default ::
  "'c handle_par \<Rightarrow> nat \<Rightarrow> uintptr \<Rightarrow> 'c handle_state \<Rightarrow> error + 'c handle_state" where
  "handle_default par burst mbufStructSize r =
     bindE (dequeue (hp_in par) (bufs r) burst (world r)) (\<lambda>(array, n, w).
       (let r1 = r\<lparr>world := w, bufs := array\<rparr>
        in if n = 0 then Inr (idle r1)
           else
             bindE
               (if hp_vectorHandleFunction par = None then
                  bindE (index_get (bufs r1) 0) (\<lambda>x0.
                  bindE (for_loop (n - 1) (handle_packet par mbufStructSize)
                           (r1\<lparr>h_tempPacketAddr := ExtractPacketAddr mbufStructSize x0\<rparr>)) (\<lambda>r2.
                  call (hp_handleFunction par) (\<lambda>f.
                    Inr (r2\<lparr>userContext := f (h_tempPacketAddr r2) (userContext r2)\<rparr>))))
                else
                  bindE (ExtractPackets mbufStructSize (h_tempPackets r1) (bufs r1) n) (\<lambda>pk.
                  call (hp_vectorHandleFunction par) (\<lambda>vf.
                    Inr (r1\<lparr>h_tempPackets := pk, userContext := vf pk n (userContext r1)\<rparr>))))
               (\<lambda>r3.
             bindE (safeEnqueue (hp_out par) (bufs r3) n (world r3)) (\<lambda>w1.
               Inr (r3\<lparr>world := w1, currentSpeed := currentSpeed r3 + of_nat n\<rparr>)))))"

definition handle_step ::
  "'c handle_par \<Rightarrow> nat \<Rightarrow> uintptr \<Rightarrow> replica_event \<Rightarrow> 'c handle_state \<Rightarrow> error + 'c handle_state" where
  "handle_step par burst mbufStructSize = select_step (handle_default par burst mbufStructSize)"

subsection \<open>split\<close>

record 'c split_par =
  spl_in :: queue_ptr
  spl_outs :: "queue_ptr list"
  spl_splitFunction :: "(uintptr \<Rightarrow> 'c \<Rightarrow> nat \<times> 'c) option"
  spl_flowNumber :: nat

record 'c split_state = "'c replica" +
  InputMbufs :: "uintptr list"
  OutputMbufs :: "uintptr list list"
  split_countOfPackets :: "nat list"
  split_tempPacketAddr :: uintptr

text \<open>
  \<^verbatim>\<open>OutputMbufs[index][countOfPackets[index]] = InputMbufs[i]; countOfPackets[index]++\<close>
\<close>

definition split_place :: "nat \<Rightarrow> nat \<Rightarrow> 'c split_state \<Rightarrow> error + 'c split_state" where
  "split_place index i r =
     bindE (index_get (OutputMbufs r) index) (\<lambda>row.
     bindE (index_get (split_countOfPackets r) index) (\<lambda>c.
     bindE (index_get (InputMbufs r) i) (\<lambda>x.
     bindE (index_set row c x) (\<lambda>row1.
       Inr (r\<lparr>OutputMbufs := (OutputMbufs r)[index := row1],
              split_countOfPackets := (split_countOfPackets r)[index := c + 1]\<rparr>)))))"

definition split_packet ::
  "'c split_par \<Rightarrow> uintptr \<Rightarrow> nat \<Rightarrow> 'c split_state \<Rightarrow> error + 'c split_state" where
  "split_packet par mbufStructSize i r =
     (let tempPacket = split_tempPacketAddr r
      in bindE (index_get (InputMbufs r) (i + 1)) (\<lambda>nxt.
         (let r1 = r\<lparr>split_tempPacketAddr := ExtractPacketAddr mbufStructSize nxt\<rparr>
          in call (spl_splitFunction par) (\<lambda>f.
               (let (index, c) = f tempPacket (userContext r1)
                in split_place index i (r1\<lparr>userContext := c\<rparr>))))))"

text \<open>The body of the loop over the outputs, which enqueues what was collected.\<close>

definition split_flush :: "'c split_par \<Rightarrow> nat \<Rightarrow> 'c split_state \<Rightarrow> error + 'c split_state" where
  "split_flush par index r =
     bindE (index_get (split_countOfPackets r) index) (\<lambda>c.
       if c = 0 then Inr r
       else
         bindE (index_get (spl_outs par) index) (\<lambda>out.
         bindE (index_get (OutputMbufs r) index) (\<lambda>row.
         bindE (safeEnqueue out row c (world r)) (\<lambda>w.
           Inr (r\<lparr>world := w, currentSpeed := currentSpeed r + of_nat c,
                  split_countOfPackets := (split_countOfPackets r)[index := 0]\<rparr>)))))"

definition split_default ::
  "'c split_par \<Rightarrow> nat \<Rightarrow> uintptr \<Rightarrow> 'c split_state \<Rightarrow> error + 'c split_state" where
  "split_default par burst mbufStructSize r =
     bindE (dequeue (spl_in par) (InputMbufs r) burst (world r)) (\<lambda>(array, n, w).
       (let r1 = r\<lparr>world := w, InputMbufs := array\<rparr>
        in if n = 0 then Inr (idle r1)
           else
             bindE (index_get (InputMbufs r1) 0) (\<lambda>x0.
             bindE (for_loop (n - 1) (split_packet par mbufStructSize)
                      (r1\<lparr>split_tempPacketAddr := ExtractPacketAddr mbufStructSize x0\<rparr>)) (\<lambda>r2.
             bindE (call (spl_splitFunction par) (\<lambda>f.
                      (let (index, c) = f (split_tempPacketAddr r2) (userContext r2)
                       in split_place index (n - 1) (r2\<lparr>userContext := c\<rparr>)))) (\<lambda>r3.
               for_loop (spl_flowNumber par) (split_flush par) r3)))))"

definition split_step ::
  "'c split_par \<Rightarrow> nat \<Rightarrow> uintptr \<Rightarrow> replica_event \<Rightarrow> 'c split_state \<Rightarrow> error + 'c split_state" where
  "split_step par burst mbufStructSize = select_step (split_default par burst mbufStructSize)"

subsection \<open>generatePerf\<close>

text \<open>
  Modelled from the spec: \<open>low.AllocateMbufs(array, mempool)\<close> fills the array with fresh
  buffer handles of the pool or fails as a unit; mempool exhaustion is fatal.
\<close>

definition AllocateMbufs :: "uintptr list \<Rightarrow> nat \<Rightarrow> runtime \<Rightarrow> error + uintptr list \<times> runtime" where
  "AllocateMbufs array mempool w =
     (let n = length array; pool = rt_mempools w mempool
      in if length pool < n then Inl (Panic ''mempool exhausted'')
         else Inr (take n pool, w\<lparr>rt_mempools := (rt_mempools w)(mempool := drop n pool)\<rparr>))"

record 'c generate_par =
  gp_out :: queue_ptr
  gp_targetSpeed :: uint64
  gp_generateFunction :: "(uintptr \<Rightarrow> 'c \<Rightarrow> 'c) option"
  gp_vectorGenerateFunction :: "(uintptr list \<Rightarrow> nat \<Rightarrow> 'c \<Rightarrow> 'c) option"
  gp_mempool :: nat

record 'c generate_state = "'c replica" +
  g_bufs :: "uintptr list"
  g_tempPackets :: "uintptr list"

definition generatePerf_default ::
  "'c generate_par \<Rightarrow> nat \<Rightarrow> uintptr \<Rightarrow> 'c generate_state \<Rightarrow> error + 'c generate_state" where
  "generatePerf_default par burst mbufStructSize r =
     bindE (AllocateMbufs (g_bufs r) (gp_mempool par) (world r)) (\<lambda>(array, w).
       (let r1 = r\<lparr>world := w, g_bufs := array\<rparr>
        in bindE
             (if gp_vectorGenerateFunction par = None then
                for_loop (length (g_bufs r1))
                  (\<lambda>i r2. bindE (index_get (g_bufs r2) i) (\<lambda>x.
                     call (gp_generateFunction par) (\<lambda>f.
                       Inr (r2\<lparr>userContext :=
                              f (ExtractPacketAddr mbufStructSize x) (userContext r2)\<rparr>)))) r1
              else
                bindE (ExtractPackets mbufStructSize (g_tempPackets r1) (g_bufs r1) burst) (\<lambda>pk.
                call (gp_vectorGenerateFunction par) (\<lambda>vf.
                  Inr (r1\<lparr>g_tempPackets := pk, userContext := vf pk burst (userContext r1)\<rparr>))))
             (\<lambda>r3.
           bindE (safeEnqueue (gp_out par) (g_bufs r3) burst (world r3)) (\<lambda>w1.
             Inr (r3\<lparr>world := w1, currentSpeed := currentSpeed r3 + of_nat burst\<rparr>)))))"

definition generatePerf_step ::
  "'c generate_par \<Rightarrow> nat \<Rightarrow> uintptr \<Rightarrow> replica_event \<Rightarrow> 'c generate_state \<Rightarrow> error + 'c generate_state" where
  "generatePerf_step par burst mbufStructSize =
     select_step (generatePerf_default par burst mbufStructSize)"

subsection \<open>What the replica loops have to do\<close>

text \<open>
  A replica loop stops only on \<open>-1\<close>: a run that started in a replica that had not
  returned ends in one that has returned exactly when \<open>-1\<close> was among the values received
  from \<open>stopper\<close>; receiving \<open>-1\<close> closes \<open>stopper\<close> and returns, receiving another value
  \<open>v\<close> makes \<open>v\<close> the pause and changes nothing else.
\<close>

definition stops_only_on_minus_one ::
  "(replica_event \<Rightarrow> ('c, 'm) replica_scheme \<Rightarrow> error + ('c, 'm) replica_scheme) \<Rightarrow> bool" where
  "stops_only_on_minus_one step \<longleftrightarrow>
     (\<forall>evs r r'. \<not> returned r \<and> replica_run step evs r = Inr r' \<longrightarrow>
        (returned r' \<longleftrightarrow> stopper_recv (- 1) \<in> set evs)) \<and>
     (\<forall>v r. v \<noteq> - 1 \<longrightarrow> step (stopper_recv v) r = Inr (r\<lparr>pause := v\<rparr>)) \<and>
     (\<forall>r. step (stopper_recv (- 1)) r =
        Inr (r\<lparr>pause := - 1, stopper_closed := True, returned := True\<rparr>))"

text \<open>
  A work iteration that finds the input ring empty sleeps \<open>pause\<close> nanoseconds when
  \<open>pause\<close> is not zero, does not sleep when it is zero, and changes nothing else.
\<close>

definition sleeps_when_idle ::
  "queue_ptr \<Rightarrow> (replica_event \<Rightarrow> ('c, 'm) replica_scheme \<Rightarrow> error + ('c, 'm) replica_scheme) \<Rightarrow> bool" where
  "sleeps_when_idle IN step \<longleftrightarrow>
     (\<forall>r q. IN = Some q \<and> ring_contents (rt_rings (world r) q) = [] \<longrightarrow>
        step default_case r =
          Inr (if pause r \<noteq> 0 then r\<lparr>sleeps := sleeps r @ [pause r]\<rparr> else r))"

text \<open>
  The invariant of the loops of \<open>separate\<close> after \<open>k\<close> packets with the given answers:
  the false answers fill a prefix of \<open>bufsFalse\<close>, the true ones a prefix of \<open>bufsTrue\<close>.
\<close>

definition placed :: "'c separate_state \<Rightarrow> 'c separate_state \<Rightarrow> nat \<Rightarrow> bool list \<Rightarrow> bool" where
  "placed r0 r k answers \<longleftrightarrow>
     length answers = k \<and> sep_bufsIn r = sep_bufsIn r0 \<and>
     length (bufsTrue r) = length (bufsTrue r0) \<and> length (bufsFalse r) = length (bufsFalse r0) \<and>
     sep_countOfPackets r = length (chosen False (take k (sep_bufsIn r0)) answers) \<and>
     take (sep_countOfPackets r) (bufsFalse r) = chosen False (take k (sep_bufsIn r0)) answers \<and>
     take (k - sep_countOfPackets r) (bufsTrue r) = chosen True (take k (sep_bufsIn r0)) answers"

text \<open>A state and two parameter sets of \<open>separate\<close> for a burst of three packets.\<close>

definition test_separate_state :: "nat separate_state" where
  "test_separate_state =
     \<lparr>pause = 0, currentSpeed = 0, returned = False, stopper_closed = False, reports = [],
      sleeps = [], userContext = 0, world = test_runtime,
      sep_bufsIn = [10, 200, 30], bufsTrue = [0, 0, 0], bufsFalse = [0, 0, 0],
      ttt = [False, False, False], sep_countOfPackets = 0, sep_tempPacketAddr = 0,
      sep_tempPackets = [0, 0, 0]\<rparr>"

definition test_separate_scalar :: "nat separate_par" where
  "test_separate_scalar =
     \<lparr>sp_in = Some 2, sp_outTrue = Some 3, sp_outFalse = Some 4,
      sp_separateFunction = Some (\<lambda>p c. (p < 200, Suc c)),
      sp_vectorSeparateFunction = None\<rparr>"

definition test_separate_vector :: "nat separate_par" where
  "test_separate_vector =
     \<lparr>sp_in = Some 2, sp_outTrue = Some 3, sp_outFalse = Some 4,
      sp_separateFunction = None,
      sp_vectorSeparateFunction = Some (\<lambda>pk t n c. (map (\<lambda>p. p < 150) pk, Suc c))\<rparr>"

text \<open>A run of a replica: a pause value, an idle round, a tick, the stop value.\<close>

definition test_events :: "replica_event list" where
  "test_events = [stopper_recv 500, default_case, tick_recv, stopper_recv (- 1), default_case]"

text \<open>
  The conditions in the words of the specification: a generator wants more replicas when
  the observed speed is below the target speed; handle, separate and split, when the count
  of the input ring is above the threshold.
\<close>

definition clone_condition :: "(nat \<Rightarrow> Queue) \<Rightarrow> uint32 \<Rightarrow> Parameters \<Rightarrow> uint64 \<Rightarrow> bool option" where
  "clone_condition rings maxP par speedPKTS =
     (case par of
        generateParameters out targetSpeed gf vgf mempool \<Rightarrow> Some (speedPKTS < targetSpeed)
      | handleParameters (Some q) out hf vhf \<Rightarrow> Some (GetQueueCount (rings q) > maxP)
      | separateParameters (Some q) outTrue outFalse sf vsf \<Rightarrow> Some (GetQueueCount (rings q) > maxP)
      | splitParameters (Some q) outs sf flowNumber \<Rightarrow> Some (GetQueueCount (rings q) > maxP)
      | _ \<Rightarrow> None)"

text \<open>
  The invariant of the clonable stages of a construction: the parameters are of a clonable
  kind, the input ring is not \<open>nil\<close> and the check is the one of the kind.
\<close>

definition clonable_ok :: "FlowFunction \<Rightarrow> bool" where
  "clonable_ok ff \<longleftrightarrow>
     (case ffParameters ff of
        generateParameters out targetSpeed gf vgf mempool \<Rightarrow> ffCheck ff = Some generateCheck_body
      | handleParameters inq out hf vhf \<Rightarrow> inq \<noteq> None \<and> ffCheck ff = Some handleCheck_body
      | separateParameters inq outTrue outFalse sf vsf \<Rightarrow>
          inq \<noteq> None \<and> ffCheck ff = Some separateCheck_body
      | splitParameters inq outs sf flowNumber \<Rightarrow> inq \<noteq> None \<and> ffCheck ff = Some splitCheck_body
      | _ \<Rightarrow> False)"

definition clonable_inv :: "flow_globals \<Rightarrow> bool" where
  "clonable_inv g \<longleftrightarrow> list_all clonable_ok (Clonable (schedState g))"

text \<open>A construction with a rate-targeted generator and a handler.\<close>

definition generator_program :: "builder_call list" where
  "generator_program =
     [CallSetGenerator (PacketFn 1) 1000 None, CallSetHandler 0 (PacketFn 2) None, CallSetStopper 0]"

subsection \<open>The rings a stage writes to\<close>

text \<open>The \<open>out\<close> fields of the parameter structures, which \<open>merge\<close> is meant to rewrite.\<close>

definition stage_outputs :: "Parameters \<Rightarrow> queue_ptr list" where
  "stage_outputs par =
     (case par of
        receiveParameters out queue port \<Rightarrow> [out]
      | generateParameters out targetSpeed gf vgf mempool \<Rightarrow> [out]
      | sendParameters inq queue port \<Rightarrow> []
      | partitionParameters inq outFirst outSecond N M \<Rightarrow> [outFirst, outSecond]
      | separateParameters inq outTrue outFalse sf vsf \<Rightarrow> [outTrue, outFalse]
      | splitParameters inq outs sf flowNumber \<Rightarrow> outs
      | handleParameters inq out hf vhf \<Rightarrow> [out]
      | writeParameters inq filename \<Rightarrow> []
      | readParameters out filename mempool repcount \<Rightarrow> [out])"

section \<open>Byte swaps are involutions\<close>

lemma mask_byte0: "(0xff :: uint32) = mask 8"
  by (simp add: mask_eq_exp_minus_1)

lemma mask_byte1: "(0xff00 :: uint32) = push_bit 8 (mask 8)"
  by (simp add: mask_eq_exp_minus_1)

lemma mask_byte2: "(0xff0000 :: uint32) = push_bit 16 (mask 8)"
  by (simp add: mask_eq_exp_minus_1)

lemma mask_byte3: "(0xff000000 :: uint32) = push_bit 24 (mask 8)"
  by (simp add: mask_eq_exp_minus_1)

lemma bit_SwapBytesUint16:
  "n < 16 \<Longrightarrow> bit (SwapBytesUint16 x) n = (if n < 8 then bit x (n + 8) else bit x (n - 8))"
  unfolding SwapBytesUint16_def
  by (auto simp add: bit_simps add.commute dest: bit_imp_le_length)

lemma bit_SwapBytesUint32:
  "n < 32 \<Longrightarrow> bit (SwapBytesUint32 x) n =
     (if n < 8 then bit x (n + 24) else if n < 16 then bit x (n + 8)
      else if n < 24 then bit x (n - 8) else bit x (n - 24))"
  unfolding SwapBytesUint32_def mask_byte0 mask_byte1 mask_byte2 mask_byte3
  by (auto simp add: bit_simps add.commute)

lemma SwapBytesUint16_involution: "SwapBytesUint16 (SwapBytesUint16 x) = x"
proof (rule bit_word_eqI)
  fix n assume "n < LENGTH(16)"
  then have n: "n < 16" by simp
  show "bit (SwapBytesUint16 (SwapBytesUint16 x)) n = bit x n"
  proof (cases "n < 8")
    case True
    then have "n + 8 < 16" "\<not> n + 8 < 8" by auto
    with True n show ?thesis by (simp add: bit_SwapBytesUint16)
  next
    case False
    with n have "n - 8 < 16" "n - 8 < 8" "8 \<le> n" by auto
    with False n show ?thesis by (simp add: bit_SwapBytesUint16)
  qed
qed

lemma SwapBytesUint32_involution: "SwapBytesUint32 (SwapBytesUint32 x) = x"
proof (rule bit_word_eqI)
  fix n assume "n < LENGTH(32)"
  then have n: "n < 32" by simp
  consider "n < 8" | "8 \<le> n \<and> n < 16" | "16 \<le> n \<and> n < 24" | "24 \<le> n"
    by linarith
  then show "bit (SwapBytesUint32 (SwapBytesUint32 x)) n = bit x n"
  proof cases
    case 1
    with n show ?thesis by (simp add: bit_SwapBytesUint32)
  next
    case 2
    with n show ?thesis by (simp add: bit_SwapBytesUint32)
  next
    case 3
    then have "n - 8 < 32" "8 \<le> n - 8" "n - 8 < 16" "\<not> n < 8" "\<not> n < 16" by auto
    with 3 n show ?thesis by (simp add: bit_SwapBytesUint32)
  next
    case 4
    with n have "n - 24 < 32" "n - 24 < 8" "\<not> n < 8" "\<not> n < 16" "\<not> n < 24" by auto
    with 4 n show ?thesis by (simp add: bit_SwapBytesUint32)
  qed
qed

text \<open>
  Claim C10. \<open>SwapBytesUint16\<close> and \<open>SwapBytesUint32\<close> are involutions: swapping the
  bytes of any \<open>uint16\<close> (any \<open>uint32\<close>) twice gives the value back.
\<close>

theorem SwapBytes_involutions:
  "SwapBytesUint16 (SwapBytesUint16 x) = x \<and> SwapBytesUint32 (SwapBytesUint32 y) = y"
  by (simp add: SwapBytesUint16_involution SwapBytesUint32_involution)

section \<open>The builder keeps count of the open flows\<close>

lemma count_update:
  "f < length xs \<Longrightarrow>
   length (filter P (xs[f := v])) + (if P (xs ! f) then 1 else 0) =
   length (filter P xs) + (if P v then 1 else (0::nat))"
proof (induction xs arbitrary: f)
  case Nil
  then show ?case by simp
next
  case (Cons x xs)
  show ?case
  proof (cases f)
    case 0
    then show ?thesis by simp
  next
    case (Suc k)
    with Cons.prems have "k < length xs" by simp
    from Cons.IH [OF this] Suc show ?thesis by simp
  qed
qed

lemma upd_last: "n = length ys \<Longrightarrow> (ys @ [a])[n := v] = ys @ [v]"
  by simp

lemmas builder_defs =
  LogWarning_def count_ff_def append_UnClonable_def append_Clonable_def update_port_def
  new_ring_def generateRingName_def CreateQueue_def CreateMempool_def new_Flow_def set_current_def
  inc_openFlowsNumber_def dec_openFlowsNumber_def checkFlow_def flow_current_def
  makeReceiver_def makeGeneratorOne_def makeGeneratorPerf_def makeSender_def
  makePartitioner_def makeSeparator_def makeSplitter_def makeHandler_def makeWriter_def
  makeReader_def merge_def Let_def split_def

lemma SetPartitioner_effect:
  assumes "SetPartitioner IN N M g = Inr (OUT, g')"
  shows "IN < length (flows g)" "flows g ! IN \<noteq> None"
    "flows g' = (flows g)[IN := Some (ringName g)] @ [Some (Suc (ringName g))]"
    "openFlowsNumber g' = openFlowsNumber g + 1"
  using assms unfolding SetPartitioner_def
  by (auto simp: builder_defs list_update_append1 upd_last split: if_splits)

lemma flows_inv_step:
  assumes "flows_inv g"
    and "open_flows g' + a = open_flows g + b"
    and "openFlowsNumber g' + of_nat a = openFlowsNumber g + of_nat b"
  shows "flows_inv g'"
proof -
  have "openFlowsNumber g' + of_nat a = of_nat (open_flows g + b)"
    using assms(1,3) by (simp add: flows_inv_def)
  also have "\<dots> = of_nat (open_flows g') + of_nat a"
    using assms(2) [symmetric] by simp
  finally show ?thesis
    by (simp add: flows_inv_def)
qed

lemma open_flows_close:
  assumes "IN < length (flows g)" "flows g ! IN \<noteq> None" "flows g' = (flows g)[IN := None]"
  shows "open_flows g' + 1 = open_flows g + 0"
  using count_update [OF assms(1), of "\<lambda>c. c \<noteq> None" None] assms(2,3)
  by (simp add: open_flows_def)

lemma open_flows_rebind:
  assumes "IN < length (flows g)" "flows g ! IN \<noteq> None" "flows g' = (flows g)[IN := Some r]"
  shows "open_flows g' + 0 = open_flows g + 0"
  using count_update [OF assms(1), of "\<lambda>c. c \<noteq> None" "Some r"] assms(2,3)
  by (simp add: open_flows_def)

lemma open_flows_open:
  assumes "flows g' = flows g @ [Some r]"
  shows "open_flows g' + 0 = open_flows g + 1"
  using assms by (simp add: open_flows_def)

lemma open_flows_rebind_open:
  assumes "IN < length (flows g)" "flows g ! IN \<noteq> None"
    and "flows g' = (flows g)[IN := Some r1] @ [Some r2]"
  shows "open_flows g' + 0 = open_flows g + 1"
  using count_update [OF assms(1), of "\<lambda>c. c \<noteq> None" "Some r1"] assms(2,3)
  by (simp add: open_flows_def)

lemma flows_inv_SetPartitioner:
  assumes "flows_inv g" "SetPartitioner IN N M g = Inr (OUT, g')"
  shows "flows_inv g'"
proof -
  note e = SetPartitioner_effect [OF assms(2)]
  show ?thesis
    by (rule flows_inv_step [OF assms(1) open_flows_rebind_open [OF e(1,2,3)]]) (simp add: e(4))
qed

lemma SetSeparator_effect:
  assumes "SetSeparator IN f ctx g = Inr (OUT, g')"
  shows "IN < length (flows g)" "flows g ! IN \<noteq> None"
    "flows g' = (flows g)[IN := Some (ringName g)] @ [Some (Suc (ringName g))]"
    "openFlowsNumber g' = openFlowsNumber g + 1"
  using assms unfolding SetSeparator_def
  by (auto simp: builder_defs list_update_append1 upd_last split: if_splits user_function.splits)

lemma flows_inv_SetSeparator:
  assumes "flows_inv g" "SetSeparator IN f ctx g = Inr (OUT, g')"
  shows "flows_inv g'"
proof -
  note e = SetSeparator_effect [OF assms(2)]
  show ?thesis
    by (rule flows_inv_step [OF assms(1) open_flows_rebind_open [OF e(1,2,3)]]) (simp add: e(4))
qed

lemma SetWriter_effect:
  assumes "SetWriter IN fname g = Inr g'"
  shows "IN < length (flows g)" "flows g ! IN \<noteq> None"
    "flows g' = (flows g)[IN := None]"
    "openFlowsNumber g' = openFlowsNumber g - 1"
  using assms unfolding SetWriter_def
  by (auto simp: builder_defs split: if_splits)

lemma SetSender_effect:
  assumes "SetSender IN port g = Inr g'"
  shows "IN < length (flows g)" "flows g ! IN \<noteq> None"
    "flows g' = (flows g)[IN := None]"
    "openFlowsNumber g' = openFlowsNumber g - 1"
  using assms unfolding SetSender_def
  by (auto simp: builder_defs split: if_splits)

lemma SetStopper_effect:
  assumes "SetStopper IN g = Inr g'"
  shows "IN < length (flows g)" "flows g ! IN \<noteq> None"
    "flows g' = (flows g)[IN := None]"
    "openFlowsNumber g' = openFlowsNumber g - 1"
  using assms unfolding SetStopper_def
  by (auto simp: builder_defs split: if_splits)

lemma SetHandler_effect:
  assumes "SetHandler IN f ctx g = Inr g'"
  shows "IN < length (flows g)" "flows g ! IN \<noteq> None"
    "flows g' = (flows g)[IN := Some (ringName g)]"
    "openFlowsNumber g' = openFlowsNumber g"
  using assms unfolding SetHandler_def
  by (auto simp: builder_defs split: if_splits user_function.splits)

lemma SetReader_effect:
  assumes "SetReader fname rc g = (OUT, g')"
  shows "flows g' = flows g @ [Some (ringName g)]"
    "openFlowsNumber g' = openFlowsNumber g + 1"
  using assms unfolding SetReader_def
  by (auto simp: builder_defs)

lemma SetReceiver_effect:
  assumes "SetReceiver port g = Inr (OUT, g')"
  shows "flows g' = flows g @ [Some (ringName g)]"
    "openFlowsNumber g' = openFlowsNumber g + 1"
  using assms unfolding SetReceiver_def
  by (auto simp: builder_defs split: if_splits)

lemma SetGenerator_effect:
  assumes "SetGenerator f ts ctx g = Inr (OUT, g')"
  shows "flows g' = flows g @ [Some (ringName g)]"
    "openFlowsNumber g' = openFlowsNumber g + 1"
  using assms unfolding SetGenerator_def
  by (auto simp: builder_defs split: if_splits user_function.splits)

lemma SetSplitter_loop_effect:
  "SetSplitter_loop k OutArray rings g = (OutArray', rings', g') \<Longrightarrow>
   \<exists>new. flows g' = flows g @ map Some new \<and> length new = k \<and>
     openFlowsNumber g' = openFlowsNumber g + of_nat k \<and> createdPorts g' = createdPorts g"
proof (induction k arbitrary: OutArray rings g)
  case 0
  then show ?case by simp
next
  case (Suc k)
  let ?g4 = "set_current (fst (new_Flow g)) (fst (new_ring (inc_openFlowsNumber (snd (new_Flow g)))))
               (snd (new_ring (inc_openFlowsNumber (snd (new_Flow g)))))"
  from Suc.prems obtain OA rs where
    "SetSplitter_loop k OA rs ?g4 = (OutArray', rings', g')"
    by (simp add: Let_def split_def)
  from Suc.IH [OF this] obtain new where new:
    "flows g' = flows ?g4 @ map Some new" "length new = k"
    "openFlowsNumber g' = openFlowsNumber ?g4 + of_nat k" "createdPorts g' = createdPorts ?g4"
    by blast
  have g4: "flows ?g4 = flows g @ [Some (ringName g)]"
    "openFlowsNumber ?g4 = openFlowsNumber g + 1" "createdPorts ?g4 = createdPorts g"
    by (simp_all add: builder_defs)
  from new g4 have "flows g' = flows g @ map Some (ringName g # new)"
    "length (ringName g # new) = Suc k"
    "openFlowsNumber g' = openFlowsNumber g + of_nat (Suc k)" "createdPorts g' = createdPorts g"
    by simp_all
  then show ?case by blast
qed

lemma SetSplitter_effect:
  assumes "SetSplitter IN f flowNumber ctx g = Inr (OutArray, g')"
  shows "IN < length (flows g)" "flows g ! IN \<noteq> None"
    "\<exists>new. flows g' = (flows g)[IN := None] @ map Some new \<and> length new = flowNumber"
    "openFlowsNumber g' = openFlowsNumber g + of_nat flowNumber - 1"
    "createdPorts g' = createdPorts g"
proof -
  from assms show IN: "IN < length (flows g)" "flows g ! IN \<noteq> None"
    unfolding SetSplitter_def by (auto simp: checkFlow_def flow_current_def split: if_splits)
  obtain OA rs g1 where loop: "SetSplitter_loop flowNumber [] [] g = (OA, rs, g1)"
    by (metis prod_cases3)
  from SetSplitter_loop_effect [OF loop] obtain new where new:
    "flows g1 = flows g @ map Some new" "length new = flowNumber"
    "openFlowsNumber g1 = openFlowsNumber g + of_nat flowNumber" "createdPorts g1 = createdPorts g"
    by blast
  from assms loop IN have g': "flows g' = (flows g1)[IN := None]"
    "openFlowsNumber g' = openFlowsNumber g1 - 1" "createdPorts g' = createdPorts g1"
    unfolding SetSplitter_def by (auto simp: builder_defs split: if_splits)
  from g' new IN show "\<exists>new. flows g' = (flows g)[IN := None] @ map Some new \<and> length new = flowNumber"
    by (auto simp: list_update_append1)
  from g' new show "openFlowsNumber g' = openFlowsNumber g + of_nat flowNumber - 1"
    "createdPorts g' = createdPorts g" by simp_all
qed

lemma flows_inv_SetSplitter:
  assumes "flows_inv g" "SetSplitter IN f flowNumber ctx g = Inr (OutArray, g')"
  shows "flows_inv g'"
proof -
  note e = SetSplitter_effect [OF assms(2)]
  from e(3) obtain new where new: "flows g' = (flows g)[IN := None] @ map Some new"
    "length new = flowNumber" by blast
  from count_update [OF e(1), of "\<lambda>c. c \<noteq> None" None] e(2) new
  have "open_flows g' + 1 = open_flows g + flowNumber"
    by (simp add: open_flows_def)
  then show ?thesis
    by (rule flows_inv_step [OF assms(1)]) (simp add: e(4))
qed

lemma SetMerger_loop_inv:
  "flows_inv g \<Longrightarrow> SetMerger_loop InArray ring g = Inr g' \<Longrightarrow>
   flows_inv g' \<and> createdPorts g' = createdPorts g"
proof (induction InArray arbitrary: g)
  case Nil
  then show ?case by simp
next
  case (Cons f InArray)
  let ?g2 = "dec_openFlowsNumber (set_current f None (merge (flow_current g f) ring g))"
  from Cons.prems(2) have f: "f < length (flows g)" "flows g ! f \<noteq> None"
    and loop: "SetMerger_loop InArray ring ?g2 = Inr g'"
    by (auto simp: checkFlow_def flow_current_def Let_def split: if_splits)
  have g2: "flows ?g2 = (flows g)[f := None]" "openFlowsNumber ?g2 = openFlowsNumber g - 1"
    "createdPorts ?g2 = createdPorts g"
    by (simp_all add: builder_defs)
  have "flows_inv ?g2"
    by (rule flows_inv_step [OF Cons.prems(1) open_flows_close [OF f g2(1)]]) (simp add: g2(2))
  from Cons.IH [OF this loop] g2(3) show ?case by simp
qed

lemma flows_inv_SetMerger:
  assumes "flows_inv g" "SetMerger InArray g = Inr (OUT, g')"
  shows "flows_inv g'" "createdPorts g' = createdPorts g"
proof -
  let ?g1 = "snd (new_ring g)"
  from assms(2) obtain g2 where loop: "SetMerger_loop InArray (fst (new_ring g)) ?g1 = Inr g2"
    and g': "g' = inc_openFlowsNumber (set_current (fst (new_Flow g2)) (fst (new_ring g)) (snd (new_Flow g2)))"
    unfolding SetMerger_def by (auto simp: Let_def split_def split: sum.splits)
  have "flows_inv ?g1"
    using assms(1) by (simp add: flows_inv_def open_flows_def builder_defs)
  from SetMerger_loop_inv [OF this loop] have g2: "flows_inv g2" "createdPorts g2 = createdPorts g"
    by (simp_all add: builder_defs)
  have e: "flows g' = flows g2 @ [Some (ringName g)]" "openFlowsNumber g' = openFlowsNumber g2 + 1"
    "createdPorts g' = createdPorts g2"
    unfolding g' by (simp_all add: builder_defs)
  show "flows_inv g'"
    by (rule flows_inv_step [OF g2(1) open_flows_open [OF e(1)]]) (simp add: e(2))
  show "createdPorts g' = createdPorts g"
    using e(3) g2(2) by simp
qed

lemma ports_frame:
  "SetWriter IN fname g = Inr g' \<Longrightarrow> createdPorts g' = createdPorts g"
  "SetReader fname rc g = (OUT, g') \<Longrightarrow> createdPorts g' = createdPorts g"
  "SetGenerator uf ts ctx g = Inr (OUT, g') \<Longrightarrow> createdPorts g' = createdPorts g"
  "SetPartitioner IN N M g = Inr (OUT, g') \<Longrightarrow> createdPorts g' = createdPorts g"
  "SetSeparator IN uf ctx g = Inr (OUT, g') \<Longrightarrow> createdPorts g' = createdPorts g"
  "SetStopper IN g = Inr g' \<Longrightarrow> createdPorts g' = createdPorts g"
  "SetHandler IN uf ctx g = Inr g' \<Longrightarrow> createdPorts g' = createdPorts g"
  unfolding SetWriter_def SetReader_def SetGenerator_def SetPartitioner_def SetSeparator_def
    SetStopper_def SetHandler_def
  by (auto simp: builder_defs split: if_splits user_function.splits)

lemma port_index_in_range:
  fixes port :: uint8
  assumes "\<not> of_nat n \<le> port"
  shows "unat port < n"
proof -
  from assms have "port < of_nat n" by simp
  then have "unat port < unat (of_nat n :: uint8)" by (simp add: word_less_nat_alt)
  also have "\<dots> \<le> n" by (simp add: unat_of_nat)
  finally show ?thesis .
qed

lemma SetReceiver_ports:
  assumes "SetReceiver port g = Inr (OUT, g')"
  shows "unat port < length (createdPorts g)"
    "createdPorts g' = (createdPorts g)[unat port :=
       (createdPorts g ! unat port)\<lparr>config := autoPort,
          rxQueues := rxQueues (createdPorts g ! unat port) @ [True],
          rxQueuesNumber := rxQueuesNumber (createdPorts g ! unat port) + 1\<rparr>]"
proof -
  from assms show r: "unat port < length (createdPorts g)"
    unfolding SetReceiver_def by (auto split: if_splits intro: port_index_in_range)
  from assms r show "createdPorts g' = (createdPorts g)[unat port :=
       (createdPorts g ! unat port)\<lparr>config := autoPort,
          rxQueues := rxQueues (createdPorts g ! unat port) @ [True],
          rxQueuesNumber := rxQueuesNumber (createdPorts g ! unat port) + 1\<rparr>]"
    unfolding SetReceiver_def by (auto simp: builder_defs split: if_splits)
qed

lemma SetSender_ports:
  assumes "SetSender IN port g = Inr g'"
  shows "unat port < length (createdPorts g)"
    "createdPorts g' = (createdPorts g)[unat port :=
       (createdPorts g ! unat port)\<lparr>config := autoPort,
          txQueues := txQueues (createdPorts g ! unat port) @ [True],
          txQueuesNumber := txQueuesNumber (createdPorts g ! unat port) + 1\<rparr>]"
proof -
  from assms show r: "unat port < length (createdPorts g)"
    unfolding SetSender_def by (auto split: if_splits sum.splits intro: port_index_in_range)
  from assms r show "createdPorts g' = (createdPorts g)[unat port :=
       (createdPorts g ! unat port)\<lparr>config := autoPort,
          txQueues := txQueues (createdPorts g ! unat port) @ [True],
          txQueuesNumber := txQueuesNumber (createdPorts g ! unat port) + 1\<rparr>]"
    unfolding SetSender_def by (auto simp: builder_defs split: if_splits sum.splits)
qed

lemma list_all_update: "list_all P xs \<Longrightarrow> P v \<Longrightarrow> list_all P (xs[i := v])"
  by (induction xs arbitrary: i) (auto split: nat.splits)

lemma ports_inv_SetReceiver:
  assumes "ports_inv g" "SetReceiver port g = Inr (OUT, g')"
  shows "ports_inv g'"
proof -
  note e = SetReceiver_ports [OF assms(2)]
  from assms(1) e(1) have "port_ok (createdPorts g ! unat port)"
    by (simp add: ports_inv_def list_all_length)
  then have "port_ok ((createdPorts g ! unat port)\<lparr>config := autoPort,
          rxQueues := rxQueues (createdPorts g ! unat port) @ [True],
          rxQueuesNumber := rxQueuesNumber (createdPorts g ! unat port) + 1\<rparr>)"
    by (simp add: port_ok_def)
  with assms(1) show ?thesis
    unfolding ports_inv_def e(2) by (rule list_all_update)
qed

lemma ports_inv_SetSender:
  assumes "ports_inv g" "SetSender IN port g = Inr g'"
  shows "ports_inv g'"
proof -
  note e = SetSender_ports [OF assms(2)]
  from assms(1) e(1) have "port_ok (createdPorts g ! unat port)"
    by (simp add: ports_inv_def list_all_length)
  then have "port_ok ((createdPorts g ! unat port)\<lparr>config := autoPort,
          txQueues := txQueues (createdPorts g ! unat port) @ [True],
          txQueuesNumber := txQueuesNumber (createdPorts g ! unat port) + 1\<rparr>)"
    by (simp add: port_ok_def)
  with assms(1) show ?thesis
    unfolding ports_inv_def e(2) by (rule list_all_update)
qed

lemma builder_inv_step:
  assumes "builder_inv g" "builder_step c g = Inr g'"
  shows "builder_inv g'"
proof (cases c)
  case (CallSetWriter IN fname)
  with assms(2) have eq: "SetWriter IN fname g = Inr g'" by simp
  note e = SetWriter_effect [OF eq]
  have "flows_inv g'"
    using assms(1) unfolding builder_inv_def
    by (intro flows_inv_step [OF _ open_flows_close [OF e(1,2,3)]]) (simp_all add: e(4))
  with assms(1) ports_frame(1) [OF eq] show ?thesis
    by (simp add: builder_inv_def ports_inv_def)
next
  case (CallSetReader fname rc)
  with assms(2) have eq: "SetReader fname rc g = (fst (SetReader fname rc g), g')"
    by (simp add: prod_eq_iff)
  note e = SetReader_effect [OF eq]
  have "flows_inv g'"
    using assms(1) unfolding builder_inv_def
    by (intro flows_inv_step [OF _ open_flows_open [OF e(1)]]) (simp_all add: e(2))
  with assms(1) ports_frame(2) [OF eq] show ?thesis
    by (simp add: builder_inv_def ports_inv_def)
next
  case (CallSetReceiver port)
  with assms(2) obtain OUT where eq: "SetReceiver port g = Inr (OUT, g')"
    by (cases "SetReceiver port g") auto
  note e = SetReceiver_effect [OF eq]
  have "flows_inv g'"
    using assms(1) unfolding builder_inv_def
    by (intro flows_inv_step [OF _ open_flows_open [OF e(1)]]) (simp_all add: e(2))
  with assms(1) ports_inv_SetReceiver [OF _ eq] show ?thesis
    by (simp add: builder_inv_def)
next
  case (CallSetGenerator uf ts ctx)
  with assms(2) obtain OUT where eq: "SetGenerator uf ts ctx g = Inr (OUT, g')"
    by (cases "SetGenerator uf ts ctx g") auto
  note e = SetGenerator_effect [OF eq]
  have "flows_inv g'"
    using assms(1) unfolding builder_inv_def
    by (intro flows_inv_step [OF _ open_flows_open [OF e(1)]]) (simp_all add: e(2))
  with assms(1) ports_frame(3) [OF eq] show ?thesis
    by (simp add: builder_inv_def ports_inv_def)
next
  case (CallSetSender IN port)
  with assms(2) have eq: "SetSender IN port g = Inr g'" by simp
  note e = SetSender_effect [OF eq]
  have "flows_inv g'"
    using assms(1) unfolding builder_inv_def
    by (intro flows_inv_step [OF _ open_flows_close [OF e(1,2,3)]]) (simp_all add: e(4))
  with assms(1) ports_inv_SetSender [OF _ eq] show ?thesis
    by (simp add: builder_inv_def)
next
  case (CallSetPartitioner IN N M)
  with assms(2) obtain OUT where eq: "SetPartitioner IN N M g = Inr (OUT, g')"
    by (cases "SetPartitioner IN N M g") auto
  with assms(1) flows_inv_SetPartitioner [OF _ eq] ports_frame(4) [OF eq] show ?thesis
    by (simp add: builder_inv_def ports_inv_def)
next
  case (CallSetSeparator IN uf ctx)
  with assms(2) obtain OUT where eq: "SetSeparator IN uf ctx g = Inr (OUT, g')"
    by (cases "SetSeparator IN uf ctx g") auto
  with assms(1) flows_inv_SetSeparator [OF _ eq] ports_frame(5) [OF eq] show ?thesis
    by (simp add: builder_inv_def ports_inv_def)
next
  case (CallSetSplitter IN f flowNumber ctx)
  with assms(2) obtain OA where eq: "SetSplitter IN f flowNumber ctx g = Inr (OA, g')"
    by (cases "SetSplitter IN f flowNumber ctx g") auto
  with assms(1) flows_inv_SetSplitter [OF _ eq] SetSplitter_effect(5) [OF eq] show ?thesis
    by (simp add: builder_inv_def ports_inv_def)
next
  case (CallSetStopper IN)
  with assms(2) have eq: "SetStopper IN g = Inr g'" by simp
  note e = SetStopper_effect [OF eq]
  have "flows_inv g'"
    using assms(1) unfolding builder_inv_def
    by (intro flows_inv_step [OF _ open_flows_close [OF e(1,2,3)]]) (simp_all add: e(4))
  with assms(1) ports_frame(6) [OF eq] show ?thesis
    by (simp add: builder_inv_def ports_inv_def)
next
  case (CallSetHandler IN uf ctx)
  with assms(2) have eq: "SetHandler IN uf ctx g = Inr g'" by simp
  note e = SetHandler_effect [OF eq]
  have "flows_inv g'"
    using assms(1) unfolding builder_inv_def
    by (intro flows_inv_step [OF _ open_flows_rebind [OF e(1,2,3)]]) (simp_all add: e(4))
  with assms(1) ports_frame(7) [OF eq] show ?thesis
    by (simp add: builder_inv_def ports_inv_def)
next
  case (CallSetMerger InArray)
  with assms(2) obtain OUT where eq: "SetMerger InArray g = Inr (OUT, g')"
    by (cases "SetMerger InArray g") auto
  with assms(1) flows_inv_SetMerger [OF _ eq] show ?thesis
    by (simp add: builder_inv_def ports_inv_def)
qed

lemma builder_inv_run:
  "builder_inv g \<Longrightarrow> builder_run cs g = Inr g' \<Longrightarrow> builder_inv g'"
proof (induction cs arbitrary: g)
  case Nil
  then show ?case by simp
next
  case (Cons c cs)
  from Cons.prems(2) obtain g1 where s: "builder_step c g = Inr g1" and r: "builder_run cs g1 = Inr g'"
    by (auto split: sum.splits)
  from Cons.IH [OF builder_inv_step [OF Cons.prems(1) s] r] show ?case .
qed

lemma builder_inv_SystemInit: "builder_inv (SystemInit procs n args package_init)"
  by (simp add: builder_inv_def flows_inv_def ports_inv_def open_flows_def SystemInit_def
      package_init_def generateRingName_def Let_def list_all_iff port_ok_def new_port_def)

lemma checkPort_ok:
  assumes "port_ok p" "length (rxQueues p) < 2 ^ 16" "length (txQueues p) < 2 ^ 16"
  shows "checkPort p = Inr ()"
proof -
  have rx: "rxQueues p \<noteq> [] \<Longrightarrow> rxQueuesNumber p \<noteq> 0"
  proof -
    assume "rxQueues p \<noteq> []"
    then have "0 < length (rxQueues p)" by simp
    with assms(2) have "unat (of_nat (length (rxQueues p)) :: uint16) = length (rxQueues p)"
      by (simp add: unat_of_nat take_bit_nat_eq_self)
    with \<open>0 < length (rxQueues p)\<close> assms(1) show ?thesis
      by (auto simp: port_ok_def)
  qed
  have tx: "txQueues p \<noteq> [] \<Longrightarrow> txQueuesNumber p \<noteq> 0"
  proof -
    assume "txQueues p \<noteq> []"
    then have "0 < length (txQueues p)" by simp
    with assms(3) have "unat (of_nat (length (txQueues p)) :: uint16) = length (txQueues p)"
      by (simp add: unat_of_nat take_bit_nat_eq_self)
    with \<open>0 < length (txQueues p)\<close> assms(1) show ?thesis
      by (auto simp: port_ok_def)
  qed
  from assms(1) rx tx show ?thesis
    by (auto simp: checkPort_def port_ok_def)
qed

lemma checkPorts_ok:
  "list_all port_ok ps \<Longrightarrow>
   \<forall>p\<in>set ps. length (rxQueues p) < 2 ^ 16 \<and> length (txQueues p) < 2 ^ 16 \<Longrightarrow>
   checkPorts ps = Inr ()"
  by (induction ps) (simp_all add: checkPort_ok)

lemma SetMerger_loop_closed:
  "f \<in> set InArray \<Longrightarrow> flow_current g f = None \<Longrightarrow>
   SetMerger_loop InArray ring g = Inl (LogError ''One of the flows is used after it was closed!'')"
proof (induction InArray arbitrary: g)
  case Nil
  then show ?case by simp
next
  case (Cons x InArray)
  show ?case
  proof (cases "flow_current g x = None")
    case True
    then show ?thesis by (simp add: checkFlow_def)
  next
    case False
    let ?g2 = "dec_openFlowsNumber (set_current x None (merge (flow_current g x) ring g))"
    from False Cons.prems have "f \<in> set InArray" by auto
    moreover have "flow_current ?g2 f = None"
    proof (cases "f < length (flows g)")
      case True
      with Cons.prems(2) have "flows g ! f = None" by (simp add: flow_current_def)
      then have "(flows g)[x := None] ! f = None"
        by (cases "x = f") (simp_all add: True)
      then show ?thesis by (simp add: builder_defs)
    next
      case False
      then show ?thesis by (simp add: builder_defs)
    qed
    ultimately have "SetMerger_loop InArray ring ?g2 =
        Inl (LogError ''One of the flows is used after it was closed!'')"
      by (rule Cons.IH)
    with False show ?thesis by (simp add: checkFlow_def Let_def)
  qed
qed

lemma closed_flow_is_error:
  assumes "f \<in> set (call_inputs c)" "flow_current g f = None"
  shows "builder_step c g = Inl (LogError ''One of the flows is used after it was closed!'')"
proof (cases c)
  case (CallSetMerger InArray)
  with assms have "f \<in> set InArray" by simp
  moreover from assms(2) have "flow_current (snd (new_ring g)) f = None"
    by (auto simp: builder_defs split: if_splits)
  ultimately have "SetMerger_loop InArray (fst (new_ring g)) (snd (new_ring g)) =
      Inl (LogError ''One of the flows is used after it was closed!'')"
    by (rule SetMerger_loop_closed)
  with CallSetMerger show ?thesis
    by (simp add: SetMerger_def split_def)
qed (use assms in \<open>auto simp: SetWriter_def SetSender_def SetPartitioner_def SetSeparator_def
      SetSplitter_def SetStopper_def SetHandler_def checkFlow_def\<close>)

lemma unat_openFlowsNumber:
  assumes "flows_inv g" "open_flows g < 2 ^ 32"
  shows "unat (openFlowsNumber g) = open_flows g"
  using assms by (simp add: flows_inv_def unat_of_nat take_bit_nat_eq_self)

lemma checkSystem_open_flows:
  "checkSystem g = Inl (LogError ''Some flows are left open at the end of configuration!'')
     \<longleftrightarrow> openFlowsNumber g \<noteq> 0"
proof (cases "openFlowsNumber g = 0")
  case True
  have "checkPorts ps \<noteq> Inl (LogError ''Some flows are left open at the end of configuration!'')" for ps
    by (induction ps) (auto simp: checkPort_def split: sum.splits)
  with True show ?thesis by (simp add: checkSystem_def)
next
  case False
  then show ?thesis by (simp add: checkSystem_def)
qed

text \<open>
  Claim C8. A builder call that is given, as an input, a flow whose \<open>current\<close> is
  \<open>nil\<close> reports the construction error of \<open>checkFlow\<close>. After every sequence of
  builder calls that started from \<open>SystemInit\<close> and reported no error, the counter
  \<open>openFlowsNumber\<close> is the number of open \<open>Flow\<close> handles, as a \<open>uint32\<close>, and
  \<open>checkSystem\<close> reports the error of the open flows exactly when the counter is not
  zero. Below \<open>2 ^ 32\<close> open flows the counter is the number itself; when moreover
  every port has fewer than \<open>2 ^ 16\<close> queues of each kind, \<open>checkSystem\<close> reports no
  other error, so it fails exactly when a flow is open.
\<close>

theorem open_flows_counted:
  "(f \<in> set (call_inputs c) \<and> flow_current g f = None \<longrightarrow>
      builder_step c g = Inl (LogError ''One of the flows is used after it was closed!'')) \<and>
   (builder_run cs (SystemInit procs n args package_init) = Inr g' \<longrightarrow>
      openFlowsNumber g' = of_nat (open_flows g') \<and>
      (checkSystem g' = Inl (LogError ''Some flows are left open at the end of configuration!'')
         \<longleftrightarrow> openFlowsNumber g' \<noteq> 0) \<and>
      (open_flows g' < 2 ^ 32 \<longrightarrow>
         unat (openFlowsNumber g') = open_flows g' \<and>
         (checkSystem g' = Inl (LogError ''Some flows are left open at the end of configuration!'')
            \<longleftrightarrow> open_flows g' \<noteq> 0) \<and>
         ((\<forall>p\<in>set (createdPorts g'). length (rxQueues p) < 2 ^ 16 \<and> length (txQueues p) < 2 ^ 16)
            \<longrightarrow> (isl (checkSystem g') \<longleftrightarrow> open_flows g' \<noteq> 0))))"
proof (intro conjI impI)
  assume "f \<in> set (call_inputs c) \<and> flow_current g f = None"
  then show "builder_step c g = Inl (LogError ''One of the flows is used after it was closed!'')"
    by (elim conjE) (rule closed_flow_is_error)
next
  assume run: "builder_run cs (SystemInit procs n args package_init) = Inr g'"
  from builder_inv_run [OF builder_inv_SystemInit run]
  have inv: "flows_inv g'" "ports_inv g'" by (simp_all add: builder_inv_def)
  from inv(1) show "openFlowsNumber g' = of_nat (open_flows g')"
    by (simp add: flows_inv_def)
  show c: "checkSystem g' = Inl (LogError ''Some flows are left open at the end of configuration!'')
      \<longleftrightarrow> openFlowsNumber g' \<noteq> 0"
    by (rule checkSystem_open_flows)
  assume small: "open_flows g' < 2 ^ 32"
  from unat_openFlowsNumber [OF inv(1) small]
  show u: "unat (openFlowsNumber g') = open_flows g'" .
  then have z: "openFlowsNumber g' \<noteq> 0 \<longleftrightarrow> open_flows g' \<noteq> 0"
    by (metis unat_eq_zero)
  with c show "checkSystem g' = Inl (LogError ''Some flows are left open at the end of configuration!'')
      \<longleftrightarrow> open_flows g' \<noteq> 0" by simp
  assume "\<forall>p\<in>set (createdPorts g'). length (rxQueues p) < 2 ^ 16 \<and> length (txQueues p) < 2 ^ 16"
  with inv(2) have "checkPorts (createdPorts g') = Inr ()"
    unfolding ports_inv_def by (rule checkPorts_ok)
  with z show "isl (checkSystem g') \<longleftrightarrow> open_flows g' \<noteq> 0"
    by (simp add: checkSystem_def)
qed

lemma upt_0_2: "[0..<2] = [0, 1]"
  by (simp add: numeral_2_eq_2)

lemmas eval_defs = upt_0_2 checkPort_def builder_defs SetWriter_def SetReader_def SetReceiver_def SetGenerator_def
  SetSender_def SetPartitioner_def SetSeparator_def SetSplitter_def SetStopper_def SetHandler_def
  SetMerger_def SystemInit_def package_init_def testConfig_def
  init_sizeMultiplier_def init_schedTime_def init_burstSize_def init_maxPacketsToClone_def
  merge_UnClonable_def merge_Clonable_def merge_outs_def
  NewUnclonableFlowFunction_def NewClonableFlowFunction_def new_port_def

theorem open_flows_counted_witness:
  "builder_run handle2_program (SystemInit 16 2 testConfig package_init) =
     Inr (projr (builder_run handle2_program (SystemInit 16 2 testConfig package_init))) \<and>
   open_flows (projr (builder_run handle2_program (SystemInit 16 2 testConfig package_init))) = 0 \<and>
   openFlowsNumber (projr (builder_run handle2_program (SystemInit 16 2 testConfig package_init))) = 0 \<and>
   \<not> isl (checkSystem (projr (builder_run handle2_program (SystemInit 16 2 testConfig package_init)))) \<and>
   builder_step (CallSetStopper 0)
       (projr (builder_run handle2_program (SystemInit 16 2 testConfig package_init))) =
     Inl (LogError ''One of the flows is used after it was closed!'')"
proof -
  let ?g = "projr (builder_run handle2_program (SystemInit 16 2 testConfig package_init))"
  have run: "builder_run handle2_program (SystemInit 16 2 testConfig package_init) = Inr ?g"
    by (simp add: handle2_program_def eval_defs)
  have fl: "flows ?g = [None, None, None, None, None]"
    by (simp add: handle2_program_def eval_defs)
  have ports: "\<forall>p\<in>set (createdPorts ?g). length (rxQueues p) < 2 ^ 16 \<and> length (txQueues p) < 2 ^ 16"
    by (simp add: handle2_program_def eval_defs)
  from fl have op: "open_flows ?g = 0" "flow_current ?g 0 = None"
    by (simp_all add: open_flows_def flow_current_def)
  have inp: "0 \<in> set (call_inputs (CallSetStopper 0))" by simp
  from open_flows_counted [of 0 "CallSetStopper 0" ?g handle2_program 16 2 testConfig ?g]
    run op ports inp
  show ?thesis by simp
qed

section \<open>Merging a reader\<close>

text \<open>
  For every kind of stage that \<open>merge\<close> has a case for, no output is left on the
  merged ring; a reader in the unclonable list is returned as it was.
\<close>

lemma merge_outs_prefix:
  "n \<le> length outs \<Longrightarrow>
   merge_outs a b n outs = map (\<lambda>q. if q = a then b else q) (take n outs) @ drop n outs"
proof (induction n)
  case 0
  then show ?case by (simp add: merge_outs_def)
next
  case (Suc n)
  then have n: "n < length outs" by simp
  let ?f = "\<lambda>q. if q = a then b else q"
  let ?os = "map ?f (take n outs) @ drop n outs"
  from Suc have ih: "merge_outs a b n outs = ?os" by simp
  have nth: "?os ! n = outs ! n" using n by (simp add: nth_append)
  have upd: "?os[n := ?f (outs ! n)] = map ?f (take (Suc n) outs) @ drop (Suc n) outs"
    using n by (simp add: take_Suc_conv_app_nth list_update_append Cons_nth_drop_Suc [symmetric])
  have "merge_outs a b (Suc n) outs = (if ?os ! n = a then ?os[n := b] else ?os)"
    using ih by (simp add: merge_outs_def)
  also have "\<dots> = ?os[n := ?f (outs ! n)]"
    using nth n by (auto simp: list_update_same_conv [THEN iffD2, symmetric])
  finally show ?case using upd by simp
qed

lemma merge_UnClonable_rewrites:
  assumes "a \<noteq> b"
  shows "a \<notin> set (stage_outputs (merge_UnClonable a b (receiveParameters out queue port)))"
    "a \<notin> set (stage_outputs (merge_UnClonable a b (partitionParameters inq outFirst outSecond N M)))"
    "a \<notin> set (stage_outputs (merge_UnClonable a b (generateParameters out targetSpeed gf vgf mempool)))"
  using assms by (auto simp: stage_outputs_def merge_UnClonable_def)

lemma merge_Clonable_rewrites:
  assumes "a \<noteq> b"
  shows "a \<notin> set (stage_outputs (merge_Clonable a b (splitParameters inq outs sf (length outs))))"
    "a \<notin> set (stage_outputs (merge_Clonable a b (separateParameters inq outTrue outFalse spf vsf)))"
    "a \<notin> set (stage_outputs (merge_Clonable a b (handleParameters inq out hf vhf)))"
    "a \<notin> set (stage_outputs (merge_Clonable a b (generateParameters out targetSpeed gf vgf mempool)))"
  using assms by (auto simp: stage_outputs_def merge_Clonable_def merge_outs_prefix)

lemma merge_UnClonable_reader:
  "stage_outputs (merge_UnClonable a b (readParameters a filename mempool repcount)) = [a]"
  by (simp add: stage_outputs_def merge_UnClonable_def)

text \<open>
  Claim C2. The claim holds that after \<open>SetMerger\<close> every producer stage that wrote to
  a merged ring, reader stages included, writes to the new ring. \<open>merge\<close> has no case
  for \<open>*readParameters\<close>: after \<open>SetReader\<close> (ring 2) and \<open>SetMerger\<close> of its flow
  (new ring 3), the flow returned is on ring 3 and the reader still writes to ring 2.
\<close>

theorem merge_skips_reader:
  "map_sum id (\<lambda>(OUT, g). (flow_current g OUT, map ffParameters (UnClonable (schedState g))))
     (SetMerger [0] (snd (SetReader ''in.pcap'' 1 (SystemInit 16 2 testConfig package_init)))) =
   Inr (Some 3, [readParameters (Some 2) ''in.pcap'' 0 1])"
  by (simp add: eval_defs)

section \<open>A partitioner with a zero argument\<close>

text \<open>
  Claim C5, as amended. \<open>SetPartitioner\<close> on an open flow with \<open>N = 0\<close> or
  \<open>M = 0\<close> is not an error: it logs the warning and goes on, the partitioner with the
  given \<open>N\<close> and \<open>M\<close> is registered as an unclonable stage and one more flow is
  open.
\<close>

theorem SetPartitioner_zero_warns:
  assumes "flow_current g IN \<noteq> None" "N = 0 \<or> M = 0"
  shows "\<exists>OUT g'. SetPartitioner IN N M g = Inr (OUT, g') \<and>
     warnings g' = warnings g @ [''One of SetPartitioner function's arguments is zero.''] \<and>
     UnClonable (schedState g') = UnClonable (schedState g) @
       [NewUnclonableFlowFunction ''partitioner'' (ffCount g + 1) partition_body
          (partitionParameters (flow_current g IN) (Some (ringName g)) (Some (ringName g + 1)) N M)] \<and>
     openFlowsNumber g' = openFlowsNumber g + 1"
  using assms unfolding SetPartitioner_def
  by (auto simp: builder_defs nth_append split: if_splits)

theorem SetPartitioner_zero_warns_witness:
  "\<exists>OUT g'. SetPartitioner 0 0 5 (snd (SetReader ''in.pcap'' 1 (SystemInit 16 2 testConfig package_init))) = Inr (OUT, g') \<and>
     warnings g' = [''One of SetPartitioner function's arguments is zero.''] \<and>
     map ffParameters (UnClonable (schedState g')) =
       [readParameters (Some 2) ''in.pcap'' 0 1, partitionParameters (Some 2) (Some 3) (Some 4) 0 5] \<and>
     openFlowsNumber g' = 2"
proof -
  let ?g = "snd (SetReader ''in.pcap'' 1 (SystemInit 16 2 testConfig package_init))"
  have 1: "flow_current ?g 0 \<noteq> None" by (simp add: eval_defs)
  have 2: "(0::uint64) = 0 \<or> (5::uint64) = 0" by simp
  have 3: "warnings ?g = []" "map ffParameters (UnClonable (schedState ?g)) = [readParameters (Some 2) ''in.pcap'' 0 1]"
    "openFlowsNumber ?g = 1" "flow_current ?g 0 = Some 2" "ringName ?g = 3"
    by (simp_all add: eval_defs)
  from SetPartitioner_zero_warns [OF 1 2] 3 show ?thesis
    by (auto simp: NewUnclonableFlowFunction_def)
qed

text \<open>
  The claim as stated fails: \<open>SetPartitioner\<close> with \<open>N = 0\<close> returns without error,
  and the construction that goes on to stop both flows passes \<open>checkSystem\<close> with that
  partitioner registered.
\<close>

theorem SetPartitioner_zero_counterexample:
  "\<not> isl (SetPartitioner 0 0 5 (snd (SetReader ''in.pcap'' 1 (SystemInit 16 2 testConfig package_init)))) \<and>
   map_sum id (\<lambda>g. (checkSystem g, map ffParameters (UnClonable (schedState g))))
     (builder_run [CallSetReader ''in.pcap'' 1, CallSetPartitioner 0 0 5, CallSetStopper 0, CallSetStopper 1]
        (SystemInit 16 2 testConfig package_init)) =
   Inr (Inr (), [readParameters (Some 2) ''in.pcap'' 0 1,
                 partitionParameters (Some 2) (Some 1) (Some 1) 0 5])"
  by (simp add: eval_defs checkSystem_def)

section \<open>The clone threshold\<close>






section \<open>The safe enqueue places every handle\<close>

lemma take_split3:
  "d \<le> n \<Longrightarrow> take n xs = take d xs @ take k (drop d (take n xs)) @ drop k (drop d (take n xs))"
  by (metis append_take_drop_id min.absorb1 take_take)

text \<open>
  Claim C1. \<open>safeEnqueue\<close> of \<open>number\<close> handles returns (it is a total function of
  the state, no step of it waits). With \<open>done\<close> the count the output ring accepts, the
  dropped counter grows by \<open>number - done\<close>; the burst is cut into three consecutive
  parts: the first \<open>done\<close> handles are appended to the output ring, the next \<open>done2\<close>,
  as many of the rest as the stop ring accepts, are appended to the stop ring, and what
  is left is handed to \<open>DirectStop\<close>. No other ring changes.
\<close>

theorem safeEnqueue_accounts:
  fixes w :: runtime and p s number :: nat and data :: "uintptr list"
  assumes "number \<le> length data" and "StopRing (rt_sched w) = Some s"
  defines "done \<equiv> min number (ring_capacity (rt_rings w p) - length (ring_contents (rt_rings w p)))"
  defines "rest \<equiv> drop done (take number data)"
  defines "done2 \<equiv> min (number - done)
     (ring_capacity (rt_rings w s) - length (ring_contents (rt_rings w s)) - (if s = p then done else 0))"
  shows "\<exists>w'. safeEnqueue (Some p) data number w = Inr w' \<and>
      Dropped (rt_sched w') = Dropped (rt_sched w) + of_nat (number - done) \<and>
      take number data = take done data @ take done2 rest @ drop done2 rest \<and>
      ring_contents (rt_rings w' p) =
        ring_contents (rt_rings w p) @ take done data @ (if s = p then take done2 rest else []) \<and>
      (s \<noteq> p \<longrightarrow> ring_contents (rt_rings w' s) = ring_contents (rt_rings w s) @ take done2 rest) \<and>
      (\<forall>r. r \<noteq> p \<and> r \<noteq> s \<longrightarrow> rt_rings w' r = rt_rings w r) \<and>
      rt_stopped w' = rt_stopped w @ drop done2 rest"
proof -
  have dn: "done \<le> number" by (simp add: done_def)
  have split: "take number data = take done data @ take done2 rest @ drop done2 rest"
    unfolding rest_def by (rule take_split3 [OF dn])
  define q1 where "q1 = (rt_rings w p)\<lparr>ring_contents := ring_contents (rt_rings w p) @ take done data\<rparr>"
  define w1 where "w1 = w\<lparr>rt_rings := (rt_rings w)(p := q1)\<rparr>"
  define w2 where "w2 = w1\<lparr>rt_sched := (rt_sched w1)\<lparr>Dropped := Dropped (rt_sched w1) + of_nat (number - done)\<rparr>\<rparr>"
  define q2 where "q2 = (rt_rings w2 s)\<lparr>ring_contents := ring_contents (rt_rings w2 s) @ take done2 rest\<rparr>"
  define w3 where "w3 = w2\<lparr>rt_rings := (rt_rings w2)(s := q2)\<rparr>"
  define w4 where "w4 = DirectStop (number - done - done2) (drop (done + done2) (take number data))
      (w3\<lparr>rt_warnings := rt_warnings w3 @ [''Normal fast stop is crowded. Use slow C stop instead.'']\<rparr>)"
  have e1: "EnqueueBurst (rt_rings w p) data number = (q1, done)"
    by (simp add: EnqueueBurst_def q1_def done_def Let_def)
  have len_data: "length (take done data) = done"
    using dn assms(1) by simp
  have free2: "ring_capacity (rt_rings w2 s) - length (ring_contents (rt_rings w2 s)) =
      ring_capacity (rt_rings w s) - length (ring_contents (rt_rings w s)) - (if s = p then done else 0)"
    using len_data by (simp add: w2_def w1_def q1_def)
  have e2: "EnqueueBurst (rt_rings w2 s) rest (number - done) = (q2, done2)"
    unfolding EnqueueBurst_def Let_def free2 q2_def done2_def by simp
  have stop2: "StopRing (rt_sched w2) = Some s"
    using assms(2) by (simp add: w2_def w1_def)
  have len_rest: "length rest = number - done"
    using assms(1) by (simp add: rest_def)
  have d2: "done2 \<le> number - done" by (simp add: done2_def)
  show ?thesis
  proof (cases "done < number")
    case False
    with dn have d: "done = number" by simp
    then have r: "rest = []" by (simp add: rest_def)
    from False e1 have "safeEnqueue (Some p) data number w = Inr w1"
      unfolding safeEnqueue_def by (simp add: w1_def)
    moreover have "Dropped (rt_sched w1) = Dropped (rt_sched w) + of_nat (number - done)"
      by (simp add: w1_def d)
    moreover have "ring_contents (rt_rings w1 p) =
        ring_contents (rt_rings w p) @ take done data @ (if s = p then take done2 rest else [])"
      by (simp add: w1_def q1_def r)
    moreover have "s \<noteq> p \<longrightarrow> ring_contents (rt_rings w1 s) = ring_contents (rt_rings w s) @ take done2 rest"
      by (simp add: w1_def r)
    moreover have "\<forall>r. r \<noteq> p \<and> r \<noteq> s \<longrightarrow> rt_rings w1 r = rt_rings w r"
      by (simp add: w1_def)
    moreover have "rt_stopped w1 = rt_stopped w @ drop done2 rest"
      by (simp add: w1_def r)
    ultimately show ?thesis using split by blast
  next
    case True
    have run: "safeEnqueue (Some p) data number w = Inr (if done2 < number - done then w4 else w3)"
      using True e1 e2 stop2 assms(1)
      unfolding safeEnqueue_def w4_def w3_def w2_def w1_def rest_def Let_def
      by simp
    have sched: "rt_sched w4 = rt_sched w3" "rt_rings w4 = rt_rings w3"
      by (simp_all add: w4_def DirectStop_def)
    have dropped: "Dropped (rt_sched w3) = Dropped (rt_sched w) + of_nat (number - done)"
      by (simp add: w3_def w2_def w1_def)
    have ring_p: "ring_contents (rt_rings w3 p) =
        ring_contents (rt_rings w p) @ take done data @ (if s = p then take done2 rest else [])"
      by (simp add: w3_def q2_def w2_def w1_def q1_def)
    have ring_s: "s \<noteq> p \<longrightarrow> ring_contents (rt_rings w3 s) = ring_contents (rt_rings w s) @ take done2 rest"
      by (simp add: w3_def q2_def w2_def w1_def)
    have others: "\<forall>r. r \<noteq> p \<and> r \<noteq> s \<longrightarrow> rt_rings w3 r = rt_rings w r"
      by (simp add: w3_def w2_def w1_def)
    have "drop (done + done2) (take number data) = drop done2 rest"
      by (simp add: rest_def add.commute)
    moreover have "length (drop done2 rest) = number - done - done2"
      using len_rest by simp
    ultimately have stopped4: "rt_stopped w4 = rt_stopped w @ drop done2 rest"
      by (simp add: w4_def DirectStop_def w3_def w2_def w1_def)
    have stopped3: "\<not> done2 < number - done \<Longrightarrow> rt_stopped w3 = rt_stopped w @ drop done2 rest"
      using len_rest d2 by (simp add: w3_def w2_def w1_def)
    show ?thesis
    proof (cases "done2 < number - done")
      case True
      with run have "safeEnqueue (Some p) data number w = Inr w4" by simp
      with sched dropped ring_p ring_s others stopped4 split show ?thesis by auto
    next
      case False
      with run have "safeEnqueue (Some p) data number w = Inr w3" by simp
      with dropped ring_p ring_s others stopped3 [OF False] split show ?thesis by blast
    qed
  qed
qed

theorem safeEnqueue_accounts_witness:
  "\<exists>w'. safeEnqueue (Some 2) [10, 20, 30, 40, 50] 4 test_runtime = Inr w' \<and>
     Dropped (rt_sched w') = 2 \<and>
     ring_contents (rt_rings w' 2) = [10, 20] \<and>
     ring_contents (rt_rings w' 1) = [30] \<and>
     rt_stopped w' = [40]"
proof -
  have 1: "4 \<le> length [10, 20, 30, 40, 50 :: uintptr]" by simp
  have 2: "StopRing (rt_sched test_runtime) = Some 1"
    by (simp add: test_runtime_def SystemInit_def generateRingName_def CreateQueue_def Let_def
        package_init_def)
  have 3: "Dropped (rt_sched test_runtime) = 0"
    by (simp add: test_runtime_def SystemInit_def generateRingName_def Let_def package_init_def)
  have 4: "rt_rings test_runtime r = \<lparr>ring_contents = [], ring_capacity = (if r = 1 then 1 else 2)\<rparr>"
    "rt_stopped test_runtime = []" for r
    by (simp_all add: test_runtime_def)
  from safeEnqueue_accounts [OF 1 2, of 2] 3 4 show ?thesis
    by (auto simp: min_def)
qed

section \<open>The partition stage is the machine of the specification\<close>

lemma moore_route_append:
  "moore_route N M st (xs @ ys) = moore_route N M st xs @ moore_route N M (moore_final N M st xs) ys"
  by (induction xs arbitrary: st) (simp_all add: moore_final_def)

lemma moore_final_append:
  "moore_final N M st (xs @ ys) = moore_final N M (moore_final N M st xs) ys"
  by (simp add: moore_final_def)

lemma map_fst_moore_route: "map fst (moore_route N M st xs) = xs"
  by (induction xs arbitrary: st) simp_all

lemma routed_to_append: "routed_to sd (xs @ ys) = routed_to sd xs @ routed_to sd ys"
  by (simp add: routed_to_def)

lemma routed_lengths:
  "length (routed_to FirstSide tg) + length (routed_to SecondSide tg) = length tg"
proof (induction tg)
  case Nil
  then show ?case by (simp add: routed_to_def)
next
  case (Cons a tg)
  obtain x s where a: "a = (x, s)" by (cases a)
  with Cons show ?case by (cases s) (simp_all add: routed_to_def)
qed

lemma length_moore_route: "length (moore_route N M st xs) = length xs"
  by (induction xs arbitrary: st) simp_all

lemma counter_step:
  fixes c b :: uint64
  assumes "unat c < unat b"
  shows "unat (c + 1) = unat c + 1" "(c + 1 = b) \<longleftrightarrow> (unat c + 1 = unat b)"
proof -
  have "unat b < 2 ^ 64" using unsigned_less [of b, where 'a = nat] by simp
  with assms have "unat c + 1 < 2 ^ 64" by simp
  then show u: "unat (c + 1) = unat c + 1"
    by (simp add: unat_word_ariths take_bit_nat_eq_self)
  show "(c + 1 = b) \<longleftrightarrow> (unat c + 1 = unat b)"
    using u by (simp add: word_unat_eq_iff)
qed

lemma partition_packet_first:
  assumes "partition_wf N M l" "sw l" "i < length bufsIn" "countOfPackets l < length (bufsFirst l)"
    "M \<noteq> 0"
  shows "\<exists>l'. partition_packet N M bufsIn i l = Inr l' \<and>
     partition_abs l' = moore_step (unat N) (unat M) (partition_abs l) \<and> partition_wf N M l' \<and>
     bufsFirst l' = (bufsFirst l)[countOfPackets l := bufsIn ! i] \<and>
     bufsSecond l' = bufsSecond l \<and> countOfPackets l' = countOfPackets l + 1"
proof -
  from assms(1,2) have c: "unat (currentPacketNumber l) < unat N"
    by (simp add: partition_wf_def)
  note cs = counter_step [OF c]
  from assms(5) have M: "0 < unat M" by (simp add: unat_gt_0)
  show ?thesis
  proof (cases "currentPacketNumber l + 1 = N")
    case True
    with assms cs c M show ?thesis
      by (simp add: partition_packet_def bindE_def index_get_def index_set_def Let_def
          partition_abs_def partition_wf_def)
  next
    case False
    with assms cs c show ?thesis
      by (simp add: partition_packet_def bindE_def index_get_def index_set_def Let_def
          partition_abs_def partition_wf_def)
  qed
qed

lemma partition_packet_second:
  assumes "partition_wf N M l" "\<not> sw l" "i < length bufsIn" "countOfPackets l \<le> i"
    "i - countOfPackets l < length (bufsSecond l)" "N \<noteq> 0"
  shows "\<exists>l'. partition_packet N M bufsIn i l = Inr l' \<and>
     partition_abs l' = moore_step (unat N) (unat M) (partition_abs l) \<and> partition_wf N M l' \<and>
     bufsSecond l' = (bufsSecond l)[i - countOfPackets l := bufsIn ! i] \<and>
     bufsFirst l' = bufsFirst l \<and> countOfPackets l' = countOfPackets l"
proof -
  from assms(1,2) have c: "unat (currentPacketNumber l) < unat M"
    by (simp add: partition_wf_def)
  note cs = counter_step [OF c]
  from assms(6) have N: "0 < unat N" by (simp add: unat_gt_0)
  show ?thesis
  proof (cases "currentPacketNumber l + 1 = M")
    case True
    with assms cs c N show ?thesis
      by (simp add: partition_packet_def bindE_def index_get_def index_set_def Let_def
          partition_abs_def partition_wf_def)
  next
    case False
    with assms cs c show ?thesis
      by (simp add: partition_packet_def bindE_def index_get_def index_set_def Let_def
          partition_abs_def partition_wf_def)
  qed
qed

lemma take_Suc_update:
  "c < length xs \<Longrightarrow> take (Suc c) (xs[c := v]) = take c xs @ [v]"
  by (simp add: take_Suc_conv_app_nth)

lemma take_update_beyond:
  "c \<le> k \<Longrightarrow> take c (xs[k := v]) = take c xs"
  by simp

lemma partition_burst_inv:
  assumes "N \<noteq> 0" "M \<noteq> 0" "partition_wf N M l0" "n \<le> length bufsIn"
    "n \<le> length (bufsFirst l0)" "n \<le> length (bufsSecond l0)" "i \<le> n"
  defines "tg \<equiv> moore_route (unat N) (unat M) (partition_abs l0) (take i bufsIn)"
  shows "\<exists>l. for_loop i (partition_packet N M bufsIn) (l0\<lparr>countOfPackets := 0\<rparr>) = Inr l \<and>
     partition_abs l = moore_final (unat N) (unat M) (partition_abs l0) (take i bufsIn) \<and>
     partition_wf N M l \<and>
     length (bufsFirst l) = length (bufsFirst l0) \<and>
     length (bufsSecond l) = length (bufsSecond l0) \<and>
     countOfPackets l = length (routed_to FirstSide tg) \<and>
     take (countOfPackets l) (bufsFirst l) = routed_to FirstSide tg \<and>
     take (i - countOfPackets l) (bufsSecond l) = routed_to SecondSide tg"
  using assms(7) unfolding tg_def
proof (induction i)
  case 0
  from assms(3) show ?case
    by (simp add: partition_abs_def partition_wf_def moore_final_def routed_to_def)
next
  case (Suc i)
  let ?st = "partition_abs l0"
  let ?tg = "moore_route (unat N) (unat M) ?st (take i bufsIn)"
  from Suc.prems have i: "i < n" "i \<le> n" by simp_all
  from Suc.IH [OF i(2)] obtain l where l:
    "for_loop i (partition_packet N M bufsIn) (l0\<lparr>countOfPackets := 0\<rparr>) = Inr l"
    "partition_abs l = moore_final (unat N) (unat M) ?st (take i bufsIn)"
    "partition_wf N M l"
    "length (bufsFirst l) = length (bufsFirst l0)"
    "length (bufsSecond l) = length (bufsSecond l0)"
    "countOfPackets l = length (routed_to FirstSide ?tg)"
    "take (countOfPackets l) (bufsFirst l) = routed_to FirstSide ?tg"
    "take (i - countOfPackets l) (bufsSecond l) = routed_to SecondSide ?tg"
    by blast
  from i assms(4) have ib: "i < length bufsIn" by simp
  then have tk: "take (Suc i) bufsIn = take i bufsIn @ [bufsIn ! i]"
    by (simp add: take_Suc_conv_app_nth)
  have tg': "moore_route (unat N) (unat M) ?st (take (Suc i) bufsIn) =
      ?tg @ [(bufsIn ! i, fst (partition_abs l))]"
    unfolding tk moore_route_append l(2) by simp
  have fin': "moore_final (unat N) (unat M) ?st (take (Suc i) bufsIn) =
      moore_step (unat N) (unat M) (partition_abs l)"
    unfolding tk moore_final_append l(2) by (simp add: moore_final_def)
  from routed_lengths [of ?tg] ib have tot:
    "length (routed_to FirstSide ?tg) + length (routed_to SecondSide ?tg) = i"
    by (simp add: length_moore_route)
  with l(6) have ci: "countOfPackets l \<le> i" by simp
  from tot l(6) have sec: "i - countOfPackets l = length (routed_to SecondSide ?tg)" by simp
  show ?case
  proof (cases "sw l")
    case True
    from ci i assms(5) l(4) have "countOfPackets l < length (bufsFirst l)" by simp
    from partition_packet_first [OF l(3) True ib this assms(2)] obtain l' where l':
      "partition_packet N M bufsIn i l = Inr l'"
      "partition_abs l' = moore_step (unat N) (unat M) (partition_abs l)"
      "partition_wf N M l'"
      "bufsFirst l' = (bufsFirst l)[countOfPackets l := bufsIn ! i]"
      "bufsSecond l' = bufsSecond l" "countOfPackets l' = countOfPackets l + 1"
      by blast
    from True have side: "fst (partition_abs l) = FirstSide" by (simp add: partition_abs_def)
    have r1: "routed_to FirstSide (?tg @ [(bufsIn ! i, FirstSide)]) = routed_to FirstSide ?tg @ [bufsIn ! i]"
      and r2: "routed_to SecondSide (?tg @ [(bufsIn ! i, FirstSide)]) = routed_to SecondSide ?tg"
      by (simp_all add: routed_to_def)
    have "take (countOfPackets l') (bufsFirst l') = routed_to FirstSide ?tg @ [bufsIn ! i]"
      using \<open>countOfPackets l < length (bufsFirst l)\<close> l(7)
      by (simp add: l'(4,6) take_Suc_update)
    moreover have "take (Suc i - countOfPackets l') (bufsSecond l') = routed_to SecondSide ?tg"
      using l(8) ci by (simp add: l'(5,6))
    moreover have "for_loop (Suc i) (partition_packet N M bufsIn) (l0\<lparr>countOfPackets := 0\<rparr>) = Inr l'"
      by (simp add: l(1) l'(1) bindE_def)
    ultimately show ?thesis
      unfolding tg' fin' side r1 r2 using l' l(4,5,6) by simp
  next
    case False
    from ci i assms(6) l(5) have "i - countOfPackets l < length (bufsSecond l)" by simp
    from partition_packet_second [OF l(3) False ib ci this assms(1)] obtain l' where l':
      "partition_packet N M bufsIn i l = Inr l'"
      "partition_abs l' = moore_step (unat N) (unat M) (partition_abs l)"
      "partition_wf N M l'"
      "bufsSecond l' = (bufsSecond l)[i - countOfPackets l := bufsIn ! i]"
      "bufsFirst l' = bufsFirst l" "countOfPackets l' = countOfPackets l"
      by blast
    from False have side: "fst (partition_abs l) = SecondSide" by (simp add: partition_abs_def)
    have r1: "routed_to FirstSide (?tg @ [(bufsIn ! i, SecondSide)]) = routed_to FirstSide ?tg"
      and r2: "routed_to SecondSide (?tg @ [(bufsIn ! i, SecondSide)]) = routed_to SecondSide ?tg @ [bufsIn ! i]"
      by (simp_all add: routed_to_def)
    have "Suc i - countOfPackets l = Suc (i - countOfPackets l)" using ci by simp
    then have "take (Suc i - countOfPackets l') (bufsSecond l') = routed_to SecondSide ?tg @ [bufsIn ! i]"
      using \<open>i - countOfPackets l < length (bufsSecond l)\<close> l(8)
      by (simp add: l'(4,6) take_Suc_update)
    moreover have "take (countOfPackets l') (bufsFirst l') = routed_to FirstSide ?tg"
      using l(7) by (simp add: l'(5,6))
    moreover have "for_loop (Suc i) (partition_packet N M bufsIn) (l0\<lparr>countOfPackets := 0\<rparr>) = Inr l'"
      by (simp add: l(1) l'(1) bindE_def)
    ultimately show ?thesis
      unfolding tg' fin' side r1 r2 using l' l(4,5,6) by simp
  qed
qed

lemma partition_run_inv:
  assumes "N \<noteq> 0" "M \<noteq> 0"
  shows "\<forall>b\<in>set bursts. length b \<le> B \<Longrightarrow> length bufsIn = B \<Longrightarrow>
     length (bufsFirst l) = B \<Longrightarrow> length (bufsSecond l) = B \<Longrightarrow> partition_wf N M l \<Longrightarrow>
     \<exists>l'. partition_run N M bursts bufsIn l =
        Inr (routed_to FirstSide (moore_route (unat N) (unat M) (partition_abs l) (concat bursts)),
             routed_to SecondSide (moore_route (unat N) (unat M) (partition_abs l) (concat bursts)),
             l')"
proof (induction bursts arbitrary: bufsIn l)
  case Nil
  then show ?case by (simp add: routed_to_def)
next
  case (Cons burst bursts)
  let ?n = "length burst"
  let ?bufsIn1 = "burst @ drop ?n bufsIn"
  from Cons.prems(1) have nB: "?n \<le> B" and rest: "\<forall>b\<in>set bursts. length b \<le> B" by simp_all
  from nB Cons.prems(2) have len1: "length ?bufsIn1 = B" by simp
  show ?case
  proof (cases "?n = 0")
    case True
    with Cons.IH [OF rest len1 Cons.prems(3,4,5)] show ?thesis by simp
  next
    case False
    have tk: "take ?n ?bufsIn1 = burst" by simp
    from partition_burst_inv [OF assms Cons.prems(5), of ?n ?bufsIn1 ?n] nB len1 Cons.prems(3,4)
    obtain l1 where l1:
      "partition_burst N M ?bufsIn1 ?n l = Inr l1"
      "partition_abs l1 = moore_final (unat N) (unat M) (partition_abs l) burst"
      "partition_wf N M l1"
      "length (bufsFirst l1) = B" "length (bufsSecond l1) = B"
      "take (countOfPackets l1) (bufsFirst l1) =
         routed_to FirstSide (moore_route (unat N) (unat M) (partition_abs l) burst)"
      "take (?n - countOfPackets l1) (bufsSecond l1) =
         routed_to SecondSide (moore_route (unat N) (unat M) (partition_abs l) burst)"
      unfolding partition_burst_def tk by auto
    from Cons.IH [OF rest len1 l1(4,5,3)] obtain l2 where l2:
      "partition_run N M bursts ?bufsIn1 l1 =
        Inr (routed_to FirstSide (moore_route (unat N) (unat M) (partition_abs l1) (concat bursts)),
             routed_to SecondSide (moore_route (unat N) (unat M) (partition_abs l1) (concat bursts)),
             l2)"
      by blast
    from False l1(1) l2 show ?thesis
      by (simp add: Let_def bindE_def l1(6,7) l1(2) moore_route_append routed_to_append)
  qed
qed

lemma deal_route:
  "routed_to FirstSide (moore_route 1 1 (FirstSide, 0) xs) = fst (deal xs) \<and>
   routed_to SecondSide (moore_route 1 1 (FirstSide, 0) xs) = snd (deal xs)"
  by (induction xs rule: deal.induct) (simp_all add: routed_to_def)

text \<open>
  Claim C3. For positive \<open>N\<close> and \<open>M\<close> and every sequence of bursts (each at most the
  burst size long, empty ones included), the partition stage hands to its first output
  the packets that the Moore machine of the specification, started in \<open>FirstSide\<close> with
  counter 0 and run over the concatenation of the bursts, meets in \<open>FirstSide\<close>, in
  their order, and to its second output those it meets in \<open>SecondSide\<close>: every packet
  of the input is tagged with one side, in input order. For \<open>N = M = 1\<close> the packets
  are dealt out alternately, the first to the first output.
\<close>

theorem partition_is_moore_machine:
  assumes "N \<noteq> 0" "M \<noteq> 0" "\<forall>b\<in>set bursts. length b \<le> B" "length bufsIn = B"
  defines "tagged \<equiv> moore_route (unat N) (unat M) (FirstSide, 0) (concat bursts)"
  shows "(\<exists>l. partition_run N M bursts bufsIn (partition_start B) =
            Inr (routed_to FirstSide tagged, routed_to SecondSide tagged, l)) \<and>
     map fst tagged = concat bursts \<and>
     (N = 1 \<and> M = 1 \<longrightarrow>
        routed_to FirstSide tagged = fst (deal (concat bursts)) \<and>
        routed_to SecondSide tagged = snd (deal (concat bursts)))"
proof -
  have st: "partition_abs (partition_start B) = (FirstSide, 0)"
    by (simp add: partition_abs_def partition_start_def)
  from assms(1) have wf: "partition_wf N M (partition_start B)"
    by (simp add: partition_wf_def partition_start_def unat_gt_0)
  have len: "length (bufsFirst (partition_start B)) = B" "length (bufsSecond (partition_start B)) = B"
    by (simp_all add: partition_start_def)
  from partition_run_inv [OF assms(1,2,3,4) len wf]
  have "\<exists>l. partition_run N M bursts bufsIn (partition_start B) =
            Inr (routed_to FirstSide tagged, routed_to SecondSide tagged, l)"
    unfolding st tagged_def .
  moreover have "map fst tagged = concat bursts"
    unfolding tagged_def by (rule map_fst_moore_route)
  moreover have "N = 1 \<and> M = 1 \<longrightarrow>
        routed_to FirstSide tagged = fst (deal (concat bursts)) \<and>
        routed_to SecondSide tagged = snd (deal (concat bursts))"
    unfolding tagged_def using deal_route [of "concat bursts"] by auto
  ultimately show ?thesis by blast
qed

theorem partition_is_moore_machine_witness:
  "(\<exists>l. partition_run 2 1 [[10, 20, 30], [], [40, 50]] [0, 0, 0] (partition_start 3) =
       Inr ([10, 20, 40, 50], [30], l)) \<and>
   (\<exists>l. partition_run 1 1 [[10, 20, 30], [], [40, 50]] [0, 0, 0] (partition_start 3) =
       Inr ([10, 30, 50], [20, 40], l))"
proof -
  have b: "\<forall>b\<in>set [[10, 20, 30], [], [40, 50 :: uintptr]]. length b \<le> 3" by simp
  have l: "length [0, 0, 0 :: uintptr] = 3" by simp
  have n: "(2 :: uint64) \<noteq> 0" "(1 :: uint64) \<noteq> 0" by simp_all
  from partition_is_moore_machine [OF n(1) n(2) b l] partition_is_moore_machine [OF n(2) n(2) b l]
  show ?thesis
    by (simp add: routed_to_def)
qed

section \<open>The separate stage sorts a burst\<close>

lemma chosen_snoc:
  "length xs = length as \<Longrightarrow>
   chosen b (xs @ [x]) (as @ [a]) = chosen b xs as @ (if a = b then [x] else [])"
  by (simp add: chosen_def)

lemma chosen_lengths:
  "length xs = length as \<Longrightarrow>
   length (chosen True xs as) + length (chosen False xs as) = length xs"
proof (induction xs arbitrary: as)
  case Nil
  then show ?case by (simp add: chosen_def)
next
  case (Cons x xs)
  then obtain a as' where as: "as = a # as'" by (cases as) auto
  with Cons.prems have "length xs = length as'" by simp
  from Cons.IH [OF this] as show ?case by (cases a) (simp_all add: chosen_def)
qed

lemma separate_place_step:
  assumes "placed r0 r k answers" "k < length (sep_bufsIn r0)" "k < length (bufsTrue r0)"
    "k < length (bufsFalse r0)"
  shows "\<exists>r'. separate_place res k r = Inr r' \<and> placed r0 r' (Suc k) (answers @ [res]) \<and>
     userContext r' = userContext r \<and> ttt r' = ttt r \<and>
     sep_tempPacketAddr r' = sep_tempPacketAddr r"
proof -
  let ?xs = "take k (sep_bufsIn r0)"
  let ?x = "sep_bufsIn r0 ! k"
  from assms(1) have p:
    "length answers = k" "sep_bufsIn r = sep_bufsIn r0"
    "length (bufsTrue r) = length (bufsTrue r0)" "length (bufsFalse r) = length (bufsFalse r0)"
    "sep_countOfPackets r = length (chosen False ?xs answers)"
    "take (sep_countOfPackets r) (bufsFalse r) = chosen False ?xs answers"
    "take (k - sep_countOfPackets r) (bufsTrue r) = chosen True ?xs answers"
    unfolding placed_def by blast+
  from assms(2) p(1) have len: "length ?xs = length answers" by simp
  from assms(2) have tk: "take (Suc k) (sep_bufsIn r0) = ?xs @ [?x]"
    by (simp add: take_Suc_conv_app_nth)
  from chosen_lengths [OF len] p(5) assms(2) have tot:
    "length (chosen True ?xs answers) + sep_countOfPackets r = k" by simp
  then have ck: "sep_countOfPackets r \<le> k" by simp
  note sn = chosen_snoc [OF len, of _ ?x res]
  show ?thesis
  proof (cases res)
    case False
    let ?r' = "r\<lparr>bufsFalse := (bufsFalse r)[sep_countOfPackets r := ?x],
                 sep_countOfPackets := sep_countOfPackets r + 1\<rparr>"
    from ck assms(4) p(4) have c: "sep_countOfPackets r < length (bufsFalse r)" by simp
    with False assms(2) p(2) have "separate_place res k r = Inr ?r'"
      by (simp add: separate_place_def bindE_def index_get_def index_set_def)
    moreover have "placed r0 ?r' (Suc k) (answers @ [res])"
      unfolding placed_def tk sn using False p c ck
      by (simp add: take_Suc_update Suc_diff_le)
    ultimately show ?thesis by simp
  next
    case True
    let ?r' = "r\<lparr>bufsTrue := (bufsTrue r)[k - sep_countOfPackets r := ?x]\<rparr>"
    from assms(3) p(3) have c: "k - sep_countOfPackets r < length (bufsTrue r)" by simp
    with True assms(2) p(2) ck have "separate_place res k r = Inr ?r'"
      by (simp add: separate_place_def bindE_def index_get_def index_set_def)
    moreover have "placed r0 ?r' (Suc k) (answers @ [res])"
      unfolding placed_def tk sn using True p c ck
      by (simp add: take_Suc_update Suc_diff_le)
    ultimately show ?thesis by simp
  qed
qed

lemma separate_answers_snoc:
  "separate_answers f c (ps @ [p]) =
     (fst (separate_answers f c ps) @ [fst (f p (snd (separate_answers f c ps)))],
      snd (f p (snd (separate_answers f c ps))))"
  by (induction ps arbitrary: c) (simp_all add: split_def Let_def)

lemma length_separate_answers: "length (fst (separate_answers f c ps)) = length ps"
  by (induction ps arbitrary: c) (simp_all add: split_def Let_def)

lemma placed_start:
  "placed r0 (r0\<lparr>sep_countOfPackets := 0, sep_tempPacketAddr := a\<rparr>) 0 []"
  "placed r0 (r0\<lparr>sep_countOfPackets := 0, sep_tempPackets := pk, ttt := t, userContext := c\<rparr>) 0 []"
  by (simp_all add: placed_def chosen_def)

lemma separate_scalar_loop:
  fixes sz :: uintptr and f :: "uintptr \<Rightarrow> 'c \<Rightarrow> bool \<times> 'c" and r0 :: "'c separate_state"
  assumes "sp_separateFunction par = Some f"
    "Suc k \<le> length (sep_bufsIn r0)" "k \<le> length (bufsTrue r0)" "k \<le> length (bufsFalse r0)"
  defines "E \<equiv> ExtractPacketAddr sz"
  shows "\<exists>r. for_loop k (separate_packet par sz)
            (r0\<lparr>sep_countOfPackets := 0, sep_tempPacketAddr := E (sep_bufsIn r0 ! 0)\<rparr>) = Inr r \<and>
     placed r0 r k (fst (separate_answers f (userContext r0) (map E (take k (sep_bufsIn r0))))) \<and>
     userContext r = snd (separate_answers f (userContext r0) (map E (take k (sep_bufsIn r0)))) \<and>
     sep_tempPacketAddr r = E (sep_bufsIn r0 ! k)"
  using assms(2,3,4)
proof (induction k)
  case 0
  show ?case by (simp add: placed_start)
next
  case (Suc k)
  let ?ps = "map E (take k (sep_bufsIn r0))"
  let ?ans = "separate_answers f (userContext r0) ?ps"
  from Suc.prems have k: "Suc k \<le> length (sep_bufsIn r0)" "k \<le> length (bufsTrue r0)"
    "k \<le> length (bufsFalse r0)" by simp_all
  from Suc.IH [OF k] obtain r where r:
    "for_loop k (separate_packet par sz)
       (r0\<lparr>sep_countOfPackets := 0, sep_tempPacketAddr := E (sep_bufsIn r0 ! 0)\<rparr>) = Inr r"
    "placed r0 r k (fst ?ans)" "userContext r = snd ?ans"
    "sep_tempPacketAddr r = E (sep_bufsIn r0 ! k)"
    by blast
  from r(2) have same: "sep_bufsIn r = sep_bufsIn r0" by (simp add: placed_def)
  let ?res = "fst (f (E (sep_bufsIn r0 ! k)) (snd ?ans))"
  let ?c = "snd (f (E (sep_bufsIn r0 ! k)) (snd ?ans))"
  let ?r1 = "r\<lparr>sep_tempPacketAddr := E (sep_bufsIn r0 ! Suc k), userContext := ?c\<rparr>"
  have pl: "placed r0 ?r1 k (fst ?ans)"
    using r(2) unfolding placed_def by (elim conjE, intro conjI) simp_all
  from Suc.prems have b: "k < length (sep_bufsIn r0)" "k < length (bufsTrue r0)"
    "k < length (bufsFalse r0)" by simp_all
  from separate_place_step [OF pl b, of ?res] obtain r' where r':
    "separate_place ?res k ?r1 = Inr r'" "placed r0 r' (Suc k) (fst ?ans @ [?res])"
    "userContext r' = ?c" "sep_tempPacketAddr r' = E (sep_bufsIn r0 ! Suc k)"
    by auto
  have tk: "map E (take (Suc k) (sep_bufsIn r0)) = ?ps @ [E (sep_bufsIn r0 ! k)]"
    using b(1) by (simp add: take_Suc_conv_app_nth)
  have step: "separate_packet par sz k r = Inr r'"
    using Suc.prems(1) r'(1)
    by (simp add: separate_packet_def call_def assms(1) bindE_def index_get_def same r(3,4)
        split_def E_def Let_def)
  have "for_loop (Suc k) (separate_packet par sz)
       (r0\<lparr>sep_countOfPackets := 0, sep_tempPacketAddr := E (sep_bufsIn r0 ! 0)\<rparr>) = Inr r'"
    by (simp add: r(1) step bindE_def)
  with r'(2,3,4) show ?case
    unfolding tk separate_answers_snoc by simp
qed

lemma ExtractPackets_result:
  "n \<le> length IN \<Longrightarrow> n \<le> length pk \<Longrightarrow>
   ExtractPackets sz pk IN n = Inr (map (ExtractPacketAddr sz) (take n IN) @ drop n pk)"
proof (induction n)
  case 0
  then show ?case by (simp add: ExtractPackets_def)
next
  case (Suc n)
  then have "ExtractPackets sz pk IN n = Inr (map (ExtractPacketAddr sz) (take n IN) @ drop n pk)"
    by simp
  moreover from Suc.prems have
    "(map (ExtractPacketAddr sz) (take n IN) @ drop n pk)[n := ExtractPacketAddr sz (IN ! n)] =
     map (ExtractPacketAddr sz) (take (Suc n) IN) @ drop (Suc n) pk"
    by (simp add: take_Suc_conv_app_nth list_update_append Cons_nth_drop_Suc [symmetric])
  ultimately show ?case
    using Suc.prems unfolding ExtractPackets_def
    by (simp add: bindE_def index_get_def index_set_def)
qed

lemma separate_vector_loop:
  fixes r0 r1 :: "'c separate_state"
  assumes "placed r0 r1 0 []" "ttt r1 = t"
    "n \<le> length t" "n \<le> length (sep_bufsIn r0)" "n \<le> length (bufsTrue r0)"
    "n \<le> length (bufsFalse r0)" "k \<le> n"
  shows "\<exists>r. for_loop k (\<lambda>i r2. bindE (index_get (ttt r2) i) (\<lambda>res. separate_place res i r2)) r1 = Inr r \<and>
     placed r0 r k (take k t) \<and> ttt r = t \<and> userContext r = userContext r1"
  using assms(7)
proof (induction k)
  case 0
  with assms(1,2) show ?case by simp
next
  case (Suc k)
  then have k: "k \<le> n" "k < n" by simp_all
  from Suc.IH [OF k(1)] obtain r where r:
    "for_loop k (\<lambda>i r2. bindE (index_get (ttt r2) i) (\<lambda>res. separate_place res i r2)) r1 = Inr r"
    "placed r0 r k (take k t)" "ttt r = t" "userContext r = userContext r1"
    by blast
  from k(2) assms(3,4,5,6) have b: "k < length (sep_bufsIn r0)" "k < length (bufsTrue r0)"
    "k < length (bufsFalse r0)" "k < length t" by simp_all
  from separate_place_step [OF r(2) b(1,2,3), of "t ! k"] obtain r' where r':
    "separate_place (t ! k) k r = Inr r'" "placed r0 r' (Suc k) (take k t @ [t ! k])"
    "userContext r' = userContext r" "ttt r' = ttt r"
    by blast
  from b(4) have tk: "take (Suc k) t = take k t @ [t ! k]"
    by (simp add: take_Suc_conv_app_nth)
  from r r' b(4) show ?case
    unfolding tk by (simp add: bindE_def index_get_def)
qed

text \<open>
  Claim C7. For a burst of \<open>n > 0\<close> packets in arrays of at least \<open>n\<close> elements,
  \<open>separate\<close> leaves the packets with answer true, in their order, in the first
  \<open>n - countOfPackets\<close> elements of \<open>bufsTrue\<close> and those with answer false, in their
  order, in the first \<open>countOfPackets\<close> elements of \<open>bufsFalse\<close>; the two counts add
  up to \<open>n\<close>. In the scalar variant the answers are those of the calls of the separate
  function on the packets in order; in the vector variant they are the first \<open>n\<close>
  elements of the array the vector function filled.
\<close>

theorem separate_burst_sorts:
  fixes par :: "'c separate_par" and r :: "'c separate_state" and sz :: uintptr and n :: nat
  assumes "0 < n" "n \<le> length (sep_bufsIn r)" "n \<le> length (bufsTrue r)"
    "n \<le> length (bufsFalse r)"
  defines "pkts \<equiv> map (ExtractPacketAddr sz) (take n (sep_bufsIn r))"
  shows
    "(sp_vectorSeparateFunction par = None \<and> sp_separateFunction par = Some f \<longrightarrow>
        (\<exists>r'. separate_burst par sz n r = Inr r' \<and>
           take (n - sep_countOfPackets r') (bufsTrue r') =
             chosen True (take n (sep_bufsIn r)) (fst (separate_answers f (userContext r) pkts)) \<and>
           take (sep_countOfPackets r') (bufsFalse r') =
             chosen False (take n (sep_bufsIn r)) (fst (separate_answers f (userContext r) pkts)) \<and>
           length (fst (separate_answers f (userContext r) pkts)) = n \<and>
           sep_countOfPackets r' \<le> n \<and> (n - sep_countOfPackets r') + sep_countOfPackets r' = n)) \<and>
     (sp_vectorSeparateFunction par = Some vf \<and> n \<le> length (sep_tempPackets r) \<and>
      n \<le> length (ttt r) \<and>
      length (fst (vf (pkts @ drop n (sep_tempPackets r)) (ttt r) n (userContext r))) = length (ttt r) \<longrightarrow>
        (\<exists>r'. separate_burst par sz n r = Inr r' \<and>
           take (n - sep_countOfPackets r') (bufsTrue r') =
             chosen True (take n (sep_bufsIn r))
               (take n (fst (vf (pkts @ drop n (sep_tempPackets r)) (ttt r) n (userContext r)))) \<and>
           take (sep_countOfPackets r') (bufsFalse r') =
             chosen False (take n (sep_bufsIn r))
               (take n (fst (vf (pkts @ drop n (sep_tempPackets r)) (ttt r) n (userContext r)))) \<and>
           sep_countOfPackets r' \<le> n \<and> (n - sep_countOfPackets r') + sep_countOfPackets r' = n))"
proof (intro conjI impI)
  let ?E = "ExtractPacketAddr sz"
  let ?xs = "take n (sep_bufsIn r)"
  have count_le: "sep_countOfPackets r' \<le> n" if "placed r r' n a" for r' :: "'c separate_state" and a
  proof -
    from that have a: "length a = n" "sep_countOfPackets r' = length (chosen False ?xs a)"
      unfolding placed_def by blast+
    with assms(2) have "length ?xs = length a" by simp
    from chosen_lengths [OF this] a assms(2) show ?thesis by simp
  qed
  {
    assume "sp_vectorSeparateFunction par = None \<and> sp_separateFunction par = Some f"
    then have v: "sp_vectorSeparateFunction par = None" and s: "sp_separateFunction par = Some f"
      by simp_all
    obtain k where n: "n = Suc k" using assms(1) by (cases n) auto
    let ?ans = "separate_answers f (userContext r) (map ?E (take k (sep_bufsIn r)))"
    from assms(2,3,4) n have b: "Suc k \<le> length (sep_bufsIn r)" "k \<le> length (bufsTrue r)"
      "k \<le> length (bufsFalse r)" by simp_all
    from separate_scalar_loop [OF s b, of sz] obtain r1 where r1:
      "for_loop k (separate_packet par sz)
         (r\<lparr>sep_countOfPackets := 0, sep_tempPacketAddr := ?E (sep_bufsIn r ! 0)\<rparr>) = Inr r1"
      "placed r r1 k (fst ?ans)" "userContext r1 = snd ?ans"
      "sep_tempPacketAddr r1 = ?E (sep_bufsIn r ! k)"
      by blast
    let ?res = "fst (f (?E (sep_bufsIn r ! k)) (snd ?ans))"
    let ?c = "snd (f (?E (sep_bufsIn r ! k)) (snd ?ans))"
    have pl: "placed r (r1\<lparr>userContext := ?c\<rparr>) k (fst ?ans)"
      using r1(2) unfolding placed_def by (elim conjE, intro conjI) simp_all
    from assms(2,3,4) n have b': "k < length (sep_bufsIn r)" "k < length (bufsTrue r)"
      "k < length (bufsFalse r)" by simp_all
    from separate_place_step [OF pl b', of ?res] obtain r' where r':
      "separate_place ?res k (r1\<lparr>userContext := ?c\<rparr>) = Inr r'"
      "placed r r' (Suc k) (fst ?ans @ [?res])"
      by blast
    have tk: "pkts = map ?E (take k (sep_bufsIn r)) @ [?E (sep_bufsIn r ! k)]"
      unfolding pkts_def n using b'(1) by (simp add: take_Suc_conv_app_nth)
    have ans: "fst (separate_answers f (userContext r) pkts) = fst ?ans @ [?res]"
      unfolding tk separate_answers_snoc by simp
    from b'(1) have ne: "sep_bufsIn r \<noteq> []" by auto
    have run: "separate_burst par sz n r = Inr r'"
      using r1(1) r'(1) b'(1) assms(1) ne
      by (simp add: separate_burst_def v s call_def bindE_def index_get_def Let_def split_def
          n r1(3,4))
    from r'(2) have pl': "placed r r' n (fst (separate_answers f (userContext r) pkts))"
      by (simp add: ans n)
    from count_le [OF pl'] pl' run
    show "\<exists>r'. separate_burst par sz n r = Inr r' \<and>
           take (n - sep_countOfPackets r') (bufsTrue r') =
             chosen True (take n (sep_bufsIn r)) (fst (separate_answers f (userContext r) pkts)) \<and>
           take (sep_countOfPackets r') (bufsFalse r') =
             chosen False (take n (sep_bufsIn r)) (fst (separate_answers f (userContext r) pkts)) \<and>
           length (fst (separate_answers f (userContext r) pkts)) = n \<and>
           sep_countOfPackets r' \<le> n \<and> (n - sep_countOfPackets r') + sep_countOfPackets r' = n"
      unfolding placed_def by auto
  }
  {
    let ?pk = "pkts @ drop n (sep_tempPackets r)"
    let ?t = "fst (vf ?pk (ttt r) n (userContext r))"
    let ?c = "snd (vf ?pk (ttt r) n (userContext r))"
    assume "sp_vectorSeparateFunction par = Some vf \<and> n \<le> length (sep_tempPackets r) \<and>
      n \<le> length (ttt r) \<and> length ?t = length (ttt r)"
    then have v: "sp_vectorSeparateFunction par = Some vf" and tp: "n \<le> length (sep_tempPackets r)"
      and tl: "n \<le> length (ttt r)" and vl: "length ?t = length (ttt r)"
      by simp_all
    let ?r1 = "r\<lparr>sep_countOfPackets := 0, sep_tempPackets := ?pk, ttt := ?t, userContext := ?c\<rparr>"
    have ex: "ExtractPackets sz (sep_tempPackets r) (sep_bufsIn r) n = Inr ?pk"
      unfolding pkts_def by (rule ExtractPackets_result [OF assms(2) tp])
    from tl vl have nt: "n \<le> length ?t" by simp
    have pl: "placed r ?r1 0 []" by (rule placed_start(2))
    have tt: "ttt ?r1 = ?t" by simp
    from separate_vector_loop [OF pl tt nt assms(2,3,4) order_refl]
    obtain r' where r':
      "for_loop n (\<lambda>i r2. bindE (index_get (ttt r2) i) (\<lambda>res. separate_place res i r2)) ?r1 = Inr r'"
      "placed r r' n (take n ?t)"
      by auto
    have run: "separate_burst par sz n r = Inr r'"
      using r'(1) ex
      by (simp add: separate_burst_def v call_def bindE_def Let_def split_def)
    from count_le [OF r'(2)] r'(2) run
    show "\<exists>r'. separate_burst par sz n r = Inr r' \<and>
           take (n - sep_countOfPackets r') (bufsTrue r') =
             chosen True (take n (sep_bufsIn r)) (take n ?t) \<and>
           take (sep_countOfPackets r') (bufsFalse r') =
             chosen False (take n (sep_bufsIn r)) (take n ?t) \<and>
           sep_countOfPackets r' \<le> n \<and> (n - sep_countOfPackets r') + sep_countOfPackets r' = n"
      unfolding placed_def by auto
  }
qed

theorem separate_burst_sorts_witness:
  "(\<exists>r'. separate_burst test_separate_scalar 128 3 test_separate_state = Inr r' \<and>
      take (3 - sep_countOfPackets r') (bufsTrue r') = [10, 30] \<and>
      take (sep_countOfPackets r') (bufsFalse r') = [200]) \<and>
   (\<exists>r'. separate_burst test_separate_vector 128 3 test_separate_state = Inr r' \<and>
      take (3 - sep_countOfPackets r') (bufsTrue r') = [10] \<and>
      take (sep_countOfPackets r') (bufsFalse r') = [200, 30])"
proof -
  have l: "0 < (3::nat)" "3 \<le> length (sep_bufsIn test_separate_state)"
    "3 \<le> length (bufsTrue test_separate_state)" "3 \<le> length (bufsFalse test_separate_state)"
    by (simp_all add: test_separate_state_def)
  have s: "sp_vectorSeparateFunction test_separate_scalar = None \<and>
      sp_separateFunction test_separate_scalar = Some (\<lambda>p c. (p < 200, Suc c))"
    by (simp add: test_separate_scalar_def)
  have v: "sp_vectorSeparateFunction test_separate_vector = Some (\<lambda>pk t n c. (map (\<lambda>p. p < 150) pk, Suc c)) \<and>
      3 \<le> length (sep_tempPackets test_separate_state) \<and> 3 \<le> length (ttt test_separate_state) \<and>
      length (fst ((\<lambda>pk t n c. (map (\<lambda>p. p < 150) pk, Suc c))
         (map (ExtractPacketAddr 128) (take 3 (sep_bufsIn test_separate_state)) @
            drop 3 (sep_tempPackets test_separate_state))
         (ttt test_separate_state) 3 (userContext test_separate_state))) =
        length (ttt test_separate_state)"
    by (simp add: test_separate_vector_def test_separate_state_def)
  have f: "sep_bufsIn test_separate_state = [10, 200, 30]" "userContext test_separate_state = 0"
    "sep_tempPackets test_separate_state = [0, 0, 0]"
    by (simp_all add: test_separate_state_def)
  from separate_burst_sorts [OF l, of test_separate_scalar "\<lambda>p c. (p < 200, Suc c)" 128] s
  have 1: "\<exists>r'. separate_burst test_separate_scalar 128 3 test_separate_state = Inr r' \<and>
      take (3 - sep_countOfPackets r') (bufsTrue r') = [10, 30] \<and>
      take (sep_countOfPackets r') (bufsFalse r') = [200]"
    by (simp add: f ExtractPacketAddr_def chosen_def) blast
  from separate_burst_sorts [OF l, of test_separate_vector _ 128 "\<lambda>pk t n c. (map (\<lambda>p. p < 150) pk, Suc c)"] v
  have 2: "\<exists>r'. separate_burst test_separate_vector 128 3 test_separate_state = Inr r' \<and>
      take (3 - sep_countOfPackets r') (bufsTrue r') = [10] \<and>
      take (sep_countOfPackets r') (bufsFalse r') = [200, 30]"
    by (simp add: f ExtractPacketAddr_def chosen_def) blast
  from 1 2 show ?thesis by blast
qed

section \<open>The replica loops stop on the stop value only\<close>

lemma for_loop_keeps:
  assumes "\<And>i s s'. body i s = Inr s' \<Longrightarrow> g s' = g s"
  shows "for_loop n body s = Inr s' \<Longrightarrow> g s' = g s"
proof (induction n arbitrary: s')
  case 0
  then show ?case by simp
next
  case (Suc n)
  then obtain s1 where s1: "for_loop n body s = Inr s1" "body n s1 = Inr s'"
    by (auto simp: bindE_def split: sum.splits)
  from Suc.IH [OF s1(1)] assms [OF s1(2)] show ?case by simp
qed

lemma bindE_Inr: "bindE m f = Inr y \<longleftrightarrow> (\<exists>x. m = Inr x \<and> f x = Inr y)"
  by (cases m) (simp_all add: bindE_def)

lemma call_Inr: "call fn k = Inr y \<longleftrightarrow> (\<exists>f. fn = Some f \<and> k f = Inr y)"
  by (cases fn) (simp_all add: call_def)

lemma idle_keeps: "returned (idle r) = returned r" "pause (idle r) = pause r"
  by (simp_all add: idle_def)

lemma separate_place_keeps:
  "separate_place res i r = Inr r' \<Longrightarrow> returned r' = returned r"
  by (auto simp: separate_place_def bindE_Inr index_get_def index_set_def split: if_splits)

lemma separate_packet_keeps:
  "separate_packet par sz i r = Inr r' \<Longrightarrow> returned r' = returned r"
  by (auto simp: separate_packet_def bindE_Inr call_Inr index_get_def Let_def split_def
      split: if_splits dest!: separate_place_keeps)

lemma separate_burst_keeps:
  assumes "separate_burst par sz n r = Inr r'"
  shows "returned r' = returned r"
proof (cases "sp_vectorSeparateFunction par = None")
  case True
  with assms obtain x0 r1 f where
    l: "for_loop (n - 1) (separate_packet par sz)
          (r\<lparr>sep_countOfPackets := 0, sep_tempPacketAddr := ExtractPacketAddr sz x0\<rparr>) = Inr r1"
    and p: "separate_place (fst (f (sep_tempPacketAddr r1) (userContext r1))) (n - 1)
          (r1\<lparr>userContext := snd (f (sep_tempPacketAddr r1) (userContext r1))\<rparr>) = Inr r'"
    by (auto simp: separate_burst_def bindE_Inr call_Inr Let_def split_def)
  from for_loop_keeps [of "separate_packet par sz" returned, OF separate_packet_keeps l]
    separate_place_keeps [OF p]
  show ?thesis by simp
next
  case False
  with assms obtain pk vf where
    l: "for_loop n (\<lambda>i r2. bindE (index_get (ttt r2) i) (\<lambda>res. separate_place res i r2))
          (r\<lparr>sep_countOfPackets := 0, sep_tempPackets := pk,
             ttt := fst (vf pk (ttt r) n (userContext r)),
             userContext := snd (vf pk (ttt r) n (userContext r))\<rparr>) = Inr r'"
    by (auto simp: separate_burst_def bindE_Inr call_Inr Let_def split_def)
  have "\<And>i s s'. bindE (index_get (ttt s) i) (\<lambda>res. separate_place res i s) = Inr s' \<Longrightarrow>
      returned s' = returned s"
    by (auto simp: bindE_Inr dest: separate_place_keeps)
  from for_loop_keeps [of _ returned, OF this l] show ?thesis by simp
qed

lemma separate_default_keeps:
  assumes "separate_default par burst sz r = Inr r'"
  shows "returned r' = returned r"
proof -
  from assms obtain array n w where
    d: "dequeue (sp_in par) (sep_bufsIn r) burst (world r) = Inr (array, n, w)"
    and rest: "(if n = 0 then Inr (idle (r\<lparr>world := w, sep_bufsIn := array\<rparr>))
       else bindE (separate_burst par sz n (r\<lparr>world := w, sep_bufsIn := array\<rparr>)) (\<lambda>r2.
             bindE (if sep_countOfPackets r2 \<noteq> 0
                    then safeEnqueue (sp_outFalse par) (bufsFalse r2) (sep_countOfPackets r2) (world r2)
                    else Inr (world r2)) (\<lambda>w1.
             bindE (if sep_countOfPackets r2 \<noteq> n
                    then safeEnqueue (sp_outTrue par) (bufsTrue r2) (n - sep_countOfPackets r2) w1
                    else Inr w1) (\<lambda>w2.
               Inr (r2\<lparr>world := w2, currentSpeed := currentSpeed r2 + of_nat n\<rparr>))))) = Inr r'"
    unfolding separate_default_def by (auto simp: bindE_Inr Let_def)
  show ?thesis
  proof (cases "n = 0")
    case True
    with rest show ?thesis by (auto simp: idle_keeps)
  next
    case False
    with rest obtain r2 w2 where "separate_burst par sz n (r\<lparr>world := w, sep_bufsIn := array\<rparr>) = Inr r2"
      "r' = r2\<lparr>world := w2, currentSpeed := currentSpeed r2 + of_nat n\<rparr>"
      by (auto simp: bindE_Inr)
    with separate_burst_keeps [OF this(1)] show ?thesis by simp
  qed
qed

lemma handle_packet_keeps:
  "handle_packet par sz i r = Inr r' \<Longrightarrow> returned r' = returned r"
  by (auto simp: handle_packet_def bindE_Inr call_Inr Let_def)

lemma handle_default_keeps:
  assumes "handle_default par burst sz r = Inr r'"
  shows "returned r' = returned r"
proof -
  from assms obtain array n w where
    rest: "(if n = 0 then Inr (idle (r\<lparr>world := w, bufs := array\<rparr>))
       else bindE
               (if hp_vectorHandleFunction par = None then
                  bindE (index_get (bufs (r\<lparr>world := w, bufs := array\<rparr>)) 0) (\<lambda>x0.
                  bindE (for_loop (n - 1) (handle_packet par sz)
                           (r\<lparr>world := w, bufs := array, h_tempPacketAddr := ExtractPacketAddr sz x0\<rparr>)) (\<lambda>r2.
                  call (hp_handleFunction par) (\<lambda>f.
                    Inr (r2\<lparr>userContext := f (h_tempPacketAddr r2) (userContext r2)\<rparr>))))
                else
                  bindE (ExtractPackets sz (h_tempPackets (r\<lparr>world := w, bufs := array\<rparr>))
                           (bufs (r\<lparr>world := w, bufs := array\<rparr>)) n) (\<lambda>pk.
                  call (hp_vectorHandleFunction par) (\<lambda>vf.
                    Inr (r\<lparr>world := w, bufs := array, h_tempPackets := pk,
                           userContext := vf pk n (userContext (r\<lparr>world := w, bufs := array\<rparr>))\<rparr>))))
               (\<lambda>r3.
             bindE (safeEnqueue (hp_out par) (bufs r3) n (world r3)) (\<lambda>w1.
               Inr (r3\<lparr>world := w1, currentSpeed := currentSpeed r3 + of_nat n\<rparr>)))) = Inr r'"
    unfolding handle_default_def by (auto simp: bindE_Inr Let_def)
  show ?thesis
  proof (cases "n = 0")
    case True
    with rest show ?thesis by (auto simp: idle_keeps)
  next
    case n: False
    show ?thesis
    proof (cases "hp_vectorHandleFunction par = None")
      case True
      with n rest obtain x0 r2 f w1 where
        l: "for_loop (n - 1) (handle_packet par sz)
              (r\<lparr>world := w, bufs := array, h_tempPacketAddr := ExtractPacketAddr sz x0\<rparr>) = Inr r2"
        and r': "r' = r2\<lparr>userContext := f (h_tempPacketAddr r2) (userContext r2), world := w1,
                   currentSpeed := currentSpeed r2 + of_nat n\<rparr>"
        by (auto simp: bindE_Inr call_Inr)
      from for_loop_keeps [of "handle_packet par sz" returned, OF handle_packet_keeps l] r'
      show ?thesis by simp
    next
      case False
      with n rest show ?thesis by (auto simp: bindE_Inr call_Inr)
    qed
  qed
qed

lemma split_place_keeps:
  "split_place index i r = Inr r' \<Longrightarrow> returned r' = returned r"
  by (auto simp: split_place_def bindE_Inr)

lemma split_packet_keeps:
  "split_packet par sz i r = Inr r' \<Longrightarrow> returned r' = returned r"
  by (auto simp: split_packet_def bindE_Inr call_Inr Let_def split_def dest!: split_place_keeps)

lemma split_flush_keeps:
  "split_flush par index r = Inr r' \<Longrightarrow> returned r' = returned r"
  by (auto simp: split_flush_def bindE_Inr split: if_splits)

lemma split_default_keeps:
  assumes "split_default par burst sz r = Inr r'"
  shows "returned r' = returned r"
proof -
  from assms obtain array n w where
    rest: "(if n = 0 then Inr (idle (r\<lparr>world := w, InputMbufs := array\<rparr>))
       else
         bindE (index_get (InputMbufs (r\<lparr>world := w, InputMbufs := array\<rparr>)) 0) (\<lambda>x0.
         bindE (for_loop (n - 1) (split_packet par sz)
                  (r\<lparr>world := w, InputMbufs := array,
                     split_tempPacketAddr := ExtractPacketAddr sz x0\<rparr>)) (\<lambda>r2.
         bindE (call (spl_splitFunction par) (\<lambda>f.
                  (let (index, c) = f (split_tempPacketAddr r2) (userContext r2)
                   in split_place index (n - 1) (r2\<lparr>userContext := c\<rparr>)))) (\<lambda>r3.
           for_loop (spl_flowNumber par) (split_flush par) r3)))) = Inr r'"
    unfolding split_default_def by (auto simp: bindE_Inr Let_def)
  show ?thesis
  proof (cases "n = 0")
    case True
    with rest show ?thesis by (auto simp: idle_keeps)
  next
    case False
    with rest obtain x0 r2 r3 f where
      l: "for_loop (n - 1) (split_packet par sz)
            (r\<lparr>world := w, InputMbufs := array,
               split_tempPacketAddr := ExtractPacketAddr sz x0\<rparr>) = Inr r2"
      and p: "split_place (fst (f (split_tempPacketAddr r2) (userContext r2))) (n - 1)
            (r2\<lparr>userContext := snd (f (split_tempPacketAddr r2) (userContext r2))\<rparr>) = Inr r3"
      and fl: "for_loop (spl_flowNumber par) (split_flush par) r3 = Inr r'"
      by (auto simp: bindE_Inr call_Inr split_def Let_def)
    from for_loop_keeps [of "split_packet par sz" returned, OF split_packet_keeps l]
      split_place_keeps [OF p]
      for_loop_keeps [of "split_flush par" returned, OF split_flush_keeps fl]
    show ?thesis by simp
  qed
qed

lemma generatePerf_default_keeps:
  assumes "generatePerf_default par burst sz r = Inr r'"
  shows "returned r' = returned r"
proof (cases "gp_vectorGenerateFunction par = None")
  case True
  with assms obtain array w r3 w1 where
    l: "for_loop (length array)
          (\<lambda>i r2. bindE (index_get (g_bufs r2) i) (\<lambda>x.
             call (gp_generateFunction par) (\<lambda>f.
               Inr (r2\<lparr>userContext := f (ExtractPacketAddr sz x) (userContext r2)\<rparr>))))
          (r\<lparr>world := w, g_bufs := array\<rparr>) = Inr r3"
    and r': "r' = r3\<lparr>world := w1, currentSpeed := currentSpeed r3 + of_nat burst\<rparr>"
    unfolding generatePerf_default_def by (auto simp: bindE_Inr Let_def)
  have "\<And>i s s'. bindE (index_get (g_bufs s) i) (\<lambda>x.
                     call (gp_generateFunction par) (\<lambda>f.
                       Inr (s\<lparr>userContext := f (ExtractPacketAddr sz x) (userContext s)\<rparr>))) = Inr s'
        \<Longrightarrow> returned s' = returned s"
    by (auto simp: bindE_Inr call_Inr)
  from for_loop_keeps [of _ returned, OF this l] r' show ?thesis by simp
next
  case False
  with assms show ?thesis
    unfolding generatePerf_default_def by (auto simp: bindE_Inr call_Inr Let_def)
qed

lemma replica_run_returned: "returned r \<Longrightarrow> replica_run step evs r = Inr r"
  by (cases evs) simp_all

lemma select_stops:
  assumes keeps: "\<And>r r'. body r = Inr r' \<Longrightarrow> returned r' = returned r"
  shows "stops_only_on_minus_one (select_step body)"
proof -
  have step: "returned r' = (ev = stopper_recv (- 1))"
    if "\<not> returned r" "select_step body ev r = Inr r'" for ev r r'
    using that keeps by (cases ev) (auto simp: select_step_def Let_def split: if_splits)
  have run: "returned r' \<longleftrightarrow> stopper_recv (- 1) \<in> set evs"
    if "\<not> returned r" "replica_run (select_step body) evs r = Inr r'" for evs r r'
    using that
  proof (induction evs arbitrary: r)
    case Nil
    then show ?case by simp
  next
    case (Cons ev evs)
    from Cons.prems obtain r1 where r1: "select_step body ev r = Inr r1"
      "replica_run (select_step body) evs r1 = Inr r'"
      by (auto simp: bindE_Inr)
    show ?case
    proof (cases "ev = stopper_recv (- 1)")
      case True
      with step [OF Cons.prems(1) r1(1)] have "returned r1" by simp
      with replica_run_returned [OF this] r1(2) True show ?thesis by simp
    next
      case False
      with step [OF Cons.prems(1) r1(1)] have "\<not> returned r1" by simp
      from Cons.IH [OF this r1(2)] False show ?thesis by auto
    qed
  qed
  show ?thesis
    unfolding stops_only_on_minus_one_def
  proof (intro conjI allI impI)
    fix evs r r'
    assume "\<not> returned r \<and> replica_run (select_step body) evs r = Inr r'"
    then show "returned r' \<longleftrightarrow> stopper_recv (- 1) \<in> set evs"
      using run by blast
  next
    fix v :: int and r
    assume "v \<noteq> - 1"
    then show "select_step body (stopper_recv v) r = Inr (r\<lparr>pause := v\<rparr>)"
      by (simp add: select_step_def)
  next
    fix r
    show "select_step body (stopper_recv (- 1)) r =
        Inr (r\<lparr>pause := - 1, stopper_closed := True, returned := True\<rparr>)"
      by (simp add: select_step_def)
  qed
qed

lemma dequeue_empty:
  assumes "ring_contents (rt_rings w q) = []"
  shows "dequeue (Some q) array n w = Inr (array, 0, w)"
proof -
  have "(rt_rings w q)\<lparr>ring_contents := []\<rparr> = rt_rings w q"
    using assms by (metis Queue.surjective Queue.update_convs(1))
  then have "(rt_rings w)(q := (rt_rings w q)\<lparr>ring_contents := []\<rparr>) = rt_rings w"
    by simp
  then show ?thesis
    using assms by (simp add: dequeue_def DequeueBurst_def)
qed

lemma idle_sleeps: "idle r = (if pause r \<noteq> 0 then r\<lparr>sleeps := sleeps r @ [pause r]\<rparr> else r)"
  by (simp add: idle_def)

lemma handle_sleeps: "sleeps_when_idle (hp_in par) (handle_step par burst sz)"
  unfolding sleeps_when_idle_def
proof (intro allI impI)
  fix r :: "'a handle_state" and q
  assume "hp_in par = Some q \<and> ring_contents (rt_rings (world r) q) = []"
  then have q: "hp_in par = Some q" and e: "ring_contents (rt_rings (world r) q) = []" by simp_all
  show "handle_step par burst sz default_case r =
      Inr (if pause r \<noteq> 0 then r\<lparr>sleeps := sleeps r @ [pause r]\<rparr> else r)"
    by (simp add: handle_step_def select_step_def handle_default_def q dequeue_empty [OF e]
        bindE_def idle_sleeps)
qed

lemma separate_sleeps: "sleeps_when_idle (sp_in par) (separate_step par burst sz)"
  unfolding sleeps_when_idle_def
proof (intro allI impI)
  fix r :: "'a separate_state" and q
  assume "sp_in par = Some q \<and> ring_contents (rt_rings (world r) q) = []"
  then have q: "sp_in par = Some q" and e: "ring_contents (rt_rings (world r) q) = []" by simp_all
  show "separate_step par burst sz default_case r =
      Inr (if pause r \<noteq> 0 then r\<lparr>sleeps := sleeps r @ [pause r]\<rparr> else r)"
    by (simp add: separate_step_def select_step_def separate_default_def q dequeue_empty [OF e]
        bindE_def idle_sleeps)
qed

lemma split_sleeps: "sleeps_when_idle (spl_in par) (split_step par burst sz)"
  unfolding sleeps_when_idle_def
proof (intro allI impI)
  fix r :: "'a split_state" and q
  assume "spl_in par = Some q \<and> ring_contents (rt_rings (world r) q) = []"
  then have q: "spl_in par = Some q" and e: "ring_contents (rt_rings (world r) q) = []" by simp_all
  show "split_step par burst sz default_case r =
      Inr (if pause r \<noteq> 0 then r\<lparr>sleeps := sleeps r @ [pause r]\<rparr> else r)"
    by (simp add: split_step_def select_step_def split_default_def q dequeue_empty [OF e]
        bindE_def idle_sleeps)
qed

text \<open>
  Claim C9. Each of the replica loops of \<open>handle\<close>, \<open>separate\<close>, \<open>split\<close> and
  \<open>generatePerf\<close> returns only on receiving \<open>-1\<close> from its stop channel: a run that
  does not panic has returned exactly when \<open>-1\<close> was received; any other value
  received becomes the pause and nothing else changes. A work iteration of \<open>handle\<close>,
  \<open>separate\<close> or \<open>split\<close> that finds the input ring empty calls \<open>time.Sleep\<close> with
  \<open>pause\<close> nanoseconds when \<open>pause\<close> is not zero, does not sleep when it is zero, and
  leaves everything else as it was.
\<close>

theorem replicas_stop_only_on_minus_one:
  "stops_only_on_minus_one (handle_step hp burst sz) \<and>
   sleeps_when_idle (hp_in hp) (handle_step hp burst sz) \<and>
   stops_only_on_minus_one (separate_step sp burst sz) \<and>
   sleeps_when_idle (sp_in sp) (separate_step sp burst sz) \<and>
   stops_only_on_minus_one (split_step spl burst sz) \<and>
   sleeps_when_idle (spl_in spl) (split_step spl burst sz) \<and>
   stops_only_on_minus_one (generatePerf_step gp burst sz)"
  unfolding handle_step_def separate_step_def split_step_def generatePerf_step_def
  using select_stops [of "handle_default hp burst sz", OF handle_default_keeps]
    select_stops [of "separate_default sp burst sz", OF separate_default_keeps]
    select_stops [of "split_default spl burst sz", OF split_default_keeps]
    select_stops [of "generatePerf_default gp burst sz", OF generatePerf_default_keeps]
    handle_sleeps [of hp burst sz] separate_sleeps [of sp burst sz] split_sleeps [of spl burst sz]
  by (simp add: handle_step_def separate_step_def split_step_def)

theorem replicas_stop_only_on_minus_one_witness:
  "separate_step test_separate_scalar 3 128 (stopper_recv 500) test_separate_state =
     Inr (test_separate_state\<lparr>pause := 500\<rparr>) \<and>
   separate_step test_separate_scalar 3 128 default_case (test_separate_state\<lparr>pause := 500\<rparr>) =
     Inr (test_separate_state\<lparr>pause := 500, sleeps := [500]\<rparr>) \<and>
   replica_run (separate_step test_separate_scalar 3 128) test_events test_separate_state =
     Inr (projr (replica_run (separate_step test_separate_scalar 3 128) test_events test_separate_state)) \<and>
   returned (projr (replica_run (separate_step test_separate_scalar 3 128) test_events test_separate_state))"
proof -
  let ?step = "separate_step test_separate_scalar 3 128"
  let ?r1 = "test_separate_state\<lparr>pause := 500\<rparr>"
  from replicas_stop_only_on_minus_one [where sp = test_separate_scalar and burst = 3 and sz = 128]
  have stop: "stops_only_on_minus_one ?step"
    and slp: "sleeps_when_idle (sp_in test_separate_scalar) ?step"
    by blast+
  have e: "sp_in test_separate_scalar = Some 2 \<and> ring_contents (rt_rings (world ?r1) 2) = []"
    by (simp add: test_separate_scalar_def test_separate_state_def test_runtime_def)
  have f: "pause ?r1 = 500" "sleeps ?r1 = []" "\<not> returned test_separate_state"
    by (simp_all add: test_separate_state_def)
  from slp e have 2: "?step default_case ?r1 = Inr (?r1\<lparr>sleeps := [500]\<rparr>)"
    unfolding sleeps_when_idle_def using f by fastforce
  from stop have 1: "?step (stopper_recv 500) test_separate_state = Inr ?r1"
    unfolding stops_only_on_minus_one_def by simp
  from stop have 3: "?step (stopper_recv (- 1)) r = Inr (r\<lparr>pause := - 1, stopper_closed := True, returned := True\<rparr>)" for r
    unfolding stops_only_on_minus_one_def by simp
  have 4: "?step tick_recv r = Inr (r\<lparr>reports := reports r @ [currentSpeed r], currentSpeed := 0\<rparr>)" for r
    by (simp add: separate_step_def select_step_def)
  have "\<not> isl (replica_run ?step test_events test_separate_state)"
    unfolding test_events_def by (simp add: 1 2 3 4 f bindE_def)
  then have run: "replica_run ?step test_events test_separate_state =
      Inr (projr (replica_run ?step test_events test_separate_state))"
    by simp
  have "stopper_recv (- 1) \<in> set test_events"
    by (simp add: test_events_def)
  with stop f(3) run
  have "returned (projr (replica_run ?step test_events test_separate_state))"
    unfolding stops_only_on_minus_one_def by blast
  with 1 2 run show ?thesis by simp
qed

section \<open>The should-clone predicates of the clonable stages\<close>

lemma clonable_ok_should_clone:
  assumes "clonable_ok ff"
  shows "\<exists>b. clone_condition rings maxP (ffParameters ff) speedPKTS = Some b \<and>
     should_clone rings maxP ff speedPKTS debug = Inr b"
  using assms
  by (cases "ffParameters ff")
    (auto simp: clonable_ok_def clone_condition_def should_clone_def generateCheck_def
      handleCheck_def separateCheck_def splitCheck_def queue_over_threshold_def)

lemma clonable_ok_merge:
  "clonable_ok ff \<Longrightarrow> clonable_ok (ff\<lparr>ffParameters := merge_Clonable a b (ffParameters ff)\<rparr>)"
  by (cases "ffParameters ff") (auto simp: clonable_ok_def merge_Clonable_def)

lemma clonable_inv_merge: "clonable_inv g \<Longrightarrow> clonable_inv (merge a b g)"
  by (simp add: clonable_inv_def merge_def list_all_iff clonable_ok_merge)

lemma clonable_frame:
  "SetWriter IN fname g = Inr g' \<Longrightarrow> Clonable (schedState g') = Clonable (schedState g)"
  "SetReader fname rc g = (OUT, g') \<Longrightarrow> Clonable (schedState g') = Clonable (schedState g)"
  "SetReceiver port g = Inr (OUT, g') \<Longrightarrow> Clonable (schedState g') = Clonable (schedState g)"
  "SetSender IN port g = Inr g' \<Longrightarrow> Clonable (schedState g') = Clonable (schedState g)"
  "SetPartitioner IN N M g = Inr (OUT, g') \<Longrightarrow> Clonable (schedState g') = Clonable (schedState g)"
  unfolding SetWriter_def SetReader_def SetReceiver_def SetSender_def SetPartitioner_def
  by (auto simp: builder_defs split: if_splits)

lemma clonable_inv_SetGenerator:
  "clonable_inv g \<Longrightarrow> SetGenerator uf ts ctx g = Inr (OUT, g') \<Longrightarrow> clonable_inv g'"
  unfolding SetGenerator_def clonable_inv_def
  by (auto simp: builder_defs clonable_ok_def NewClonableFlowFunction_def
      split: if_splits user_function.splits)

lemma clonable_inv_SetSeparator:
  "clonable_inv g \<Longrightarrow> SetSeparator IN uf ctx g = Inr (OUT, g') \<Longrightarrow> clonable_inv g'"
  unfolding SetSeparator_def clonable_inv_def
  by (auto simp: builder_defs clonable_ok_def NewClonableFlowFunction_def nth_append
      split: if_splits user_function.splits)

lemma clonable_inv_SetHandler:
  "clonable_inv g \<Longrightarrow> SetHandler IN uf ctx g = Inr g' \<Longrightarrow> clonable_inv g'"
  unfolding SetHandler_def clonable_inv_def
  by (auto simp: builder_defs clonable_ok_def NewClonableFlowFunction_def
      split: if_splits user_function.splits)

lemma clonable_inv_SetStopper:
  "clonable_inv g \<Longrightarrow> SetStopper IN g = Inr g' \<Longrightarrow> clonable_inv g'"
proof -
  assume inv: "clonable_inv g" and eq: "SetStopper IN g = Inr g'"
  from eq have "Clonable (schedState g') =
      Clonable (schedState (merge (flow_current g IN) (StopRing (schedState g)) g))"
    unfolding SetStopper_def
    by (auto simp: Let_def checkFlow_def set_current_def dec_openFlowsNumber_def split: if_splits)
  with clonable_inv_merge [OF inv] show ?thesis by (simp add: clonable_inv_def)
qed

lemma SetSplitter_loop_frame:
  "SetSplitter_loop k OutArray rings g = (OutArray', rings', g') \<Longrightarrow>
   schedState g' = schedState g \<and> length (flows g) \<le> length (flows g') \<and>
   (\<forall>f < length (flows g). flows g' ! f = flows g ! f)"
proof (induction k arbitrary: OutArray rings g)
  case 0
  then show ?case by simp
next
  case (Suc k)
  let ?g4 = "set_current (fst (new_Flow g)) (fst (new_ring (inc_openFlowsNumber (snd (new_Flow g)))))
               (snd (new_ring (inc_openFlowsNumber (snd (new_Flow g)))))"
  from Suc.prems obtain OA rs where
    "SetSplitter_loop k OA rs ?g4 = (OutArray', rings', g')"
    by (simp add: Let_def split_def)
  from Suc.IH [OF this] have ih: "schedState g' = schedState ?g4"
    "length (flows ?g4) \<le> length (flows g')" "\<forall>f < length (flows ?g4). flows g' ! f = flows ?g4 ! f"
    by blast+
  have g4: "schedState ?g4 = schedState g" "flows ?g4 = flows g @ [Some (ringName g)]"
    by (simp_all add: builder_defs)
  from ih g4 show ?case by (auto simp: nth_append)
qed

lemma clonable_inv_SetSplitter:
  assumes "clonable_inv g" "SetSplitter IN f flowNumber ctx g = Inr (OutArray, g')"
  shows "clonable_inv g'"
proof -
  from assms(2) have IN: "IN < length (flows g)" "flows g ! IN \<noteq> None"
    unfolding SetSplitter_def by (auto simp: checkFlow_def flow_current_def split: if_splits)
  obtain OA rs g1 where loop: "SetSplitter_loop flowNumber [] [] g = (OA, rs, g1)"
    by (metis prod_cases3)
  from SetSplitter_loop_frame [OF loop] IN have g1: "schedState g1 = schedState g"
    "flow_current g1 IN \<noteq> None"
    by (auto simp: flow_current_def)
  from assms(2) loop IN have "Clonable (schedState g') = Clonable (schedState g1) @
      [NewClonableFlowFunction ''splitter'' (ffCount g1 + 1) split_body
         (splitParameters (flow_current g1 IN) rs f flowNumber) splitCheck_body ctx]"
    unfolding SetSplitter_def
    by (auto simp: Let_def checkFlow_def makeSplitter_def count_ff_def append_Clonable_def
        set_current_def dec_openFlowsNumber_def split: if_splits)
  with assms(1) g1 show ?thesis
    by (auto simp: clonable_inv_def clonable_ok_def NewClonableFlowFunction_def)
qed

lemma SetMerger_loop_clonable:
  "clonable_inv g \<Longrightarrow> SetMerger_loop InArray ring g = Inr g' \<Longrightarrow> clonable_inv g'"
proof (induction InArray arbitrary: g)
  case Nil
  then show ?case by simp
next
  case (Cons f InArray)
  let ?g2 = "dec_openFlowsNumber (set_current f None (merge (flow_current g f) ring g))"
  from Cons.prems(2) have loop: "SetMerger_loop InArray ring ?g2 = Inr g'"
    by (auto simp: Let_def split: sum.splits)
  from clonable_inv_merge [OF Cons.prems(1)] have "clonable_inv ?g2"
    by (simp add: clonable_inv_def set_current_def dec_openFlowsNumber_def)
  from Cons.IH [OF this loop] show ?case .
qed

lemma clonable_inv_SetMerger:
  assumes "clonable_inv g" "SetMerger InArray g = Inr (OUT, g')"
  shows "clonable_inv g'"
proof -
  from assms(2) obtain g2 where loop: "SetMerger_loop InArray (fst (new_ring g)) (snd (new_ring g)) = Inr g2"
    and g': "g' = inc_openFlowsNumber (set_current (fst (new_Flow g2)) (fst (new_ring g)) (snd (new_Flow g2)))"
    unfolding SetMerger_def by (auto simp: Let_def split_def split: sum.splits)
  from assms(1) have "clonable_inv (snd (new_ring g))"
    by (simp add: clonable_inv_def builder_defs)
  from SetMerger_loop_clonable [OF this loop] show ?thesis
    unfolding g' by (simp add: clonable_inv_def builder_defs)
qed

lemma clonable_inv_step:
  assumes "clonable_inv g" "builder_step c g = Inr g'"
  shows "clonable_inv g'"
proof (cases c)
  case (CallSetWriter IN fname)
  with assms clonable_frame(1) [of IN fname g g'] show ?thesis by (simp add: clonable_inv_def)
next
  case (CallSetReader fname rc)
  with assms(2) have "SetReader fname rc g = (fst (SetReader fname rc g), g')"
    by (simp add: prod_eq_iff)
  from clonable_frame(2) [OF this] assms(1) show ?thesis by (simp add: clonable_inv_def)
next
  case (CallSetReceiver port)
  with assms(2) obtain OUT where "SetReceiver port g = Inr (OUT, g')"
    by (cases "SetReceiver port g") auto
  from clonable_frame(3) [OF this] assms(1) show ?thesis by (simp add: clonable_inv_def)
next
  case (CallSetGenerator uf ts ctx)
  with assms(2) obtain OUT where "SetGenerator uf ts ctx g = Inr (OUT, g')"
    by (cases "SetGenerator uf ts ctx g") auto
  from clonable_inv_SetGenerator [OF assms(1) this] show ?thesis .
next
  case (CallSetSender IN port)
  with assms clonable_frame(4) [of IN port g g'] show ?thesis by (simp add: clonable_inv_def)
next
  case (CallSetPartitioner IN N M)
  with assms(2) obtain OUT where "SetPartitioner IN N M g = Inr (OUT, g')"
    by (cases "SetPartitioner IN N M g") auto
  from clonable_frame(5) [OF this] assms(1) show ?thesis by (simp add: clonable_inv_def)
next
  case (CallSetSeparator IN uf ctx)
  with assms(2) obtain OUT where "SetSeparator IN uf ctx g = Inr (OUT, g')"
    by (cases "SetSeparator IN uf ctx g") auto
  from clonable_inv_SetSeparator [OF assms(1) this] show ?thesis .
next
  case (CallSetSplitter IN f flowNumber ctx)
  with assms(2) obtain OA where "SetSplitter IN f flowNumber ctx g = Inr (OA, g')"
    by (cases "SetSplitter IN f flowNumber ctx g") auto
  from clonable_inv_SetSplitter [OF assms(1) this] show ?thesis .
next
  case (CallSetStopper IN)
  with assms clonable_inv_SetStopper [of g IN g'] show ?thesis by simp
next
  case (CallSetHandler IN uf ctx)
  with assms clonable_inv_SetHandler [of g IN uf ctx g'] show ?thesis by simp
next
  case (CallSetMerger InArray)
  with assms(2) obtain OUT where "SetMerger InArray g = Inr (OUT, g')"
    by (cases "SetMerger InArray g") auto
  from clonable_inv_SetMerger [OF assms(1) this] show ?thesis .
qed

lemma clonable_inv_run:
  "clonable_inv g \<Longrightarrow> builder_run cs g = Inr g' \<Longrightarrow> clonable_inv g'"
proof (induction cs arbitrary: g)
  case Nil
  then show ?case by simp
next
  case (Cons c cs)
  from Cons.prems(2) obtain g1 where s: "builder_step c g = Inr g1" and r: "builder_run cs g1 = Inr g'"
    by (auto split: sum.splits)
  from Cons.IH [OF clonable_inv_step [OF Cons.prems(1) s] r] show ?case .
qed

lemma clonable_inv_SystemInit: "clonable_inv (SystemInit procs n args package_init)"
  by (simp add: clonable_inv_def SystemInit_def generateRingName_def Let_def)

text \<open>
  Claim C6. For every clonable stage of every construction, the should-clone predicate
  that the scheduler consults returns the condition of the specification: for a
  rate-targeted generator, that the observed speed is below the target speed; for a handle,
  separate or split stage, that the count of the input ring is above \<open>maxPacketsToClone\<close>.
  The same holds of the descriptors as \<open>makeGeneratorPerf\<close>, \<open>makeHandler\<close>,
  \<open>makeSeparator\<close> and \<open>makeSplitter\<close> build them.
\<close>

theorem should_clone_conditions:
  "(builder_run cs (SystemInit procs n args package_init) = Inr g \<and>
      ff \<in> set (Clonable (schedState g)) \<longrightarrow>
      (\<exists>b. clone_condition rings maxP (ffParameters ff) speedPKTS = Some b \<and>
           should_clone rings maxP ff speedPKTS debug = Inr b)) \<and>
   should_clone rings maxP (fst (makeGeneratorPerf out gf vgf targetSpeed ctx g0)) speedPKTS debug
     = Inr (speedPKTS < targetSpeed) \<and>
   should_clone rings maxP (fst (makeHandler (Some r) out hf vhf name ctx g0)) speedPKTS debug
     = Inr (GetQueueCount (rings r) > maxP) \<and>
   should_clone rings maxP (fst (makeSeparator (Some r) outTrue outFalse sf vsf name ctx g0)) speedPKTS debug
     = Inr (GetQueueCount (rings r) > maxP) \<and>
   should_clone rings maxP (fst (makeSplitter (Some r) outs spf flowNumber ctx g0)) speedPKTS debug
     = Inr (GetQueueCount (rings r) > maxP)"
proof -
  have "\<exists>b. clone_condition rings maxP (ffParameters ff) speedPKTS = Some b \<and>
           should_clone rings maxP ff speedPKTS debug = Inr b"
    if "builder_run cs (SystemInit procs n args package_init) = Inr g"
      "ff \<in> set (Clonable (schedState g))"
  proof -
    from clonable_inv_run [OF clonable_inv_SystemInit that(1)] that(2) have "clonable_ok ff"
      by (simp add: clonable_inv_def list_all_iff)
    then show ?thesis by (rule clonable_ok_should_clone)
  qed
  then show ?thesis
    by (simp add: should_clone_def makeGeneratorPerf_def makeHandler_def makeSeparator_def
      makeSplitter_def NewClonableFlowFunction_def generateCheck_def handleCheck_def
      separateCheck_def splitCheck_def queue_over_threshold_def Let_def split_def)
qed

theorem should_clone_conditions_witness:
  "builder_run generator_program (SystemInit 16 2 testConfig package_init) =
     Inr (projr (builder_run generator_program (SystemInit 16 2 testConfig package_init))) \<and>
   map ffParameters (Clonable (schedState
       (projr (builder_run generator_program (SystemInit 16 2 testConfig package_init))))) =
     [generateParameters (Some 2) 1000 (Some 1) None 0, handleParameters (Some 2) (Some 1) (Some 2) None] \<and>
   map (\<lambda>ff. should_clone (rt_rings test_runtime) 6552 ff 999 False)
     (Clonable (schedState
       (projr (builder_run generator_program (SystemInit 16 2 testConfig package_init))))) =
     [Inr True, Inr False]"
proof -
  let ?g = "projr (builder_run generator_program (SystemInit 16 2 testConfig package_init))"
  have run: "builder_run generator_program (SystemInit 16 2 testConfig package_init) = Inr ?g"
    by (simp add: generator_program_def eval_defs)
  have ps: "map ffParameters (Clonable (schedState ?g)) =
      [generateParameters (Some 2) 1000 (Some 1) None 0, handleParameters (Some 2) (Some 1) (Some 2) None]"
    by (simp add: generator_program_def eval_defs)
  then obtain a b where ab: "Clonable (schedState ?g) = [a, b]"
    "ffParameters a = generateParameters (Some 2) 1000 (Some 1) None 0"
    "ffParameters b = handleParameters (Some 2) (Some 1) (Some 2) None"
    by auto
  from should_clone_conditions [of generator_program 16 2 testConfig ?g a "rt_rings test_runtime" 6552 999 False, THEN conjunct1]
    run ab
  have 1: "should_clone (rt_rings test_runtime) 6552 a 999 False = Inr True"
    by (auto simp: clone_condition_def)
  from should_clone_conditions [of generator_program 16 2 testConfig ?g b "rt_rings test_runtime" 6552 999 False, THEN conjunct1]
    run ab
  have 2: "should_clone (rt_rings test_runtime) 6552 b 999 False = Inr False"
    by (auto simp: clone_condition_def GetQueueCount_def test_runtime_def)
  from run ps 1 2 ab(1) show ?thesis by simp
qed

end
